theory Spec2Isabelle
  imports Main "HOL-Library.Word"
begin

section \<open>The voice pathway of \<open>voice_server.py\<close>\<close>

text \<open>
  The endpoint \<open>/api/ask\<close> runs three units of control over two shared objects:
  the thread \<open>stream_claude\<close> reads the deltas of the language-model stream, the
  thread \<open>stream_fish_tts\<close> runs the speech-synthesis session, and the generator
  \<open>generate_audio\<close> relays the lines of \<open>audio_queue\<close> to the client. The shared
  objects are the \<open>TextStreamBuffer\<close> and \<open>audio_queue\<close>. Python strings are modelled
  as \<open>string\<close> (code points below 256), bytes as lists of 8-bit words.
\<close>

subsection \<open>\<open>TextStreamBuffer\<close>\<close>

text \<open>
  \<open>self.queue\<close> is an unbounded FIFO (\<open>queue.Queue()\<close>): \<open>put\<close> appends at the tail,
  \<open>get\<close> removes the head. \<open>self.done\<close> is the field \<open>done_flag\<close>.
\<close>

record TextStreamBuffer =
  queue :: "string list"
  done_flag :: bool

definition init_buffer :: TextStreamBuffer where
  "init_buffer = \<lparr>queue = [], done_flag = False\<rparr>"

text \<open>\<open>add\<close>: \<open>if text: self.queue.put(text)\<close>. The only falsy string is the empty one.\<close>

definition add :: "string \<Rightarrow> TextStreamBuffer \<Rightarrow> TextStreamBuffer" where
  "add text b = (if text \<noteq> [] then b\<lparr>queue := queue b @ [text]\<rparr> else b)"

definition finish :: "TextStreamBuffer \<Rightarrow> TextStreamBuffer" where
  "finish b = b\<lparr>done_flag := True\<rparr>"

text \<open>
  \<open>__iter__\<close> is a generator. Its control points are the test of the \<open>while\<close>, the call
  \<open>self.queue.get(timeout=0.1)\<close>, the handler of \<open>queue.Empty\<close>, and the end of the
  generator. One step of the generator moves between them; it yields at most one
  fragment. \<open>get\<close> on an empty queue is the timeout.
\<close>

datatype gen_pc = G_while | G_get | G_except | G_finished

fun iter_step :: "gen_pc \<Rightarrow> TextStreamBuffer \<Rightarrow> gen_pc \<times> string option \<times> TextStreamBuffer" where
  "iter_step G_while b =
     (if \<not> done_flag b \<or> queue b \<noteq> [] then (G_get, None, b) else (G_finished, None, b))"
| "iter_step G_get b =
     (case queue b of
        x # xs \<Rightarrow> (G_while, Some x, b\<lparr>queue := xs\<rparr>)
      | [] \<Rightarrow> (G_except, None, b))"
| "iter_step G_except b =
     (if done_flag b then (G_finished, None, b) else (G_while, None, b))"
| "iter_step G_finished b = (G_finished, None, b)"

text \<open>
  A consumer that runs the generator to its end while nobody else touches the buffer
  (\<open>list(text_buffer)\<close>). On an open, empty buffer the loop polls for ever: the result
  is \<open>None\<close>.
\<close>

partial_function (option) iterate :: "gen_pc \<Rightarrow> TextStreamBuffer \<Rightarrow> string list option" where
  "iterate g b =
     (if g = G_finished then Some []
      else (case iter_step g b of
              (g', y, b') \<Rightarrow>
                Option.bind (iterate g' b')
                  (\<lambda>ys. Some (case y of None \<Rightarrow> ys | Some x \<Rightarrow> x # ys))))"

text \<open>Pushing a sequence of fragments, in order.\<close>

definition add_all :: "string list \<Rightarrow> TextStreamBuffer \<Rightarrow> TextStreamBuffer" where
  "add_all fs b = fold add fs b"

subsection \<open>\<open>json.dumps\<close>, \<open>json.loads\<close> and \<open>base64.b64encode\<close>\<close>

text \<open>
  The server only serialises dictionaries whose keys and values are strings. A dictionary
  is kept as the list of its items in insertion order. \<open>json_dumps\<close> is \<open>json.dumps\<close>
  with its defaults (separators \<open>", "\<close> and \<open>": "\<close>, \<open>ensure_ascii\<close>): a character is
  written as itself when it is printable ASCII other than the quote and the backslash,
  by its short escape when it has one, and as \<open>\u00XX\<close> otherwise.
\<close>

type_synonym pydict = "(string \<times> string) list"

definition hex_digit :: "nat \<Rightarrow> char" where
  "hex_digit n = ''0123456789abcdef'' ! n"

definition escape_char :: "char \<Rightarrow> string" where
  "escape_char c =
     (if c = CHR 0x22 then [CHR 0x5C, CHR 0x22]
      else if c = CHR 0x5C then [CHR 0x5C, CHR 0x5C]
      else if c = CHR 0x0A then [CHR 0x5C, CHR ''n'']
      else if c = CHR 0x0D then [CHR 0x5C, CHR ''r'']
      else if c = CHR 0x09 then [CHR 0x5C, CHR ''t'']
      else if c = CHR 0x08 then [CHR 0x5C, CHR ''b'']
      else if c = CHR 0x0C then [CHR 0x5C, CHR ''f'']
      else if (0x20::nat) \<le> of_char c \<and> of_char c \<le> (0x7E::nat) then [c]
      else [CHR 0x5C, CHR ''u'', CHR ''0'', CHR ''0'',
            hex_digit (of_char c div 16), hex_digit (of_char c mod 16)])"

definition json_string :: "string \<Rightarrow> string" where
  "json_string s = CHR 0x22 # concat (map escape_char s) @ [CHR 0x22]"

definition json_item :: "string \<times> string \<Rightarrow> string" where
  "json_item kv = json_string (fst kv) @ '': '' @ json_string (snd kv)"

fun join :: "string \<Rightarrow> string list \<Rightarrow> string" where
  "join sep [] = []"
| "join sep [x] = x"
| "join sep (x # y # ys) = x @ sep @ join sep (y # ys)"

definition json_dumps :: "pydict \<Rightarrow> string" where
  "json_dumps d = ''{'' @ join '', '' (map json_item d) @ ''}''"

text \<open>
  \<open>base64.b64encode\<close>: three bytes give four characters of the standard alphabet, a
  rest of one or two bytes is padded with \<open>=\<close>.
\<close>

definition b64_char :: "nat \<Rightarrow> char" where
  "b64_char n = ''ABCDEFGHIJKLMNOPQRSTUVWXYZabcdefghijklmnopqrstuvwxyz0123456789+/'' ! n"

fun b64encode :: "8 word list \<Rightarrow> string" where
  "b64encode [] = []"
| "b64encode [a] =
     (let n = unat a in [b64_char (n div 4), b64_char (n mod 4 * 16), CHR ''='', CHR ''=''])"
| "b64encode [a, b] =
     (let n = unat a * 256 + unat b
      in [b64_char (n div 1024), b64_char (n div 16 mod 64), b64_char (n mod 16 * 4), CHR ''=''])"
| "b64encode (a # b # c # rest) =
     (let n = unat a * 65536 + unat b * 256 + unat c
      in [b64_char (n div 262144), b64_char (n div 4096 mod 64),
          b64_char (n div 64 mod 64), b64_char (n mod 64)] @ b64encode rest)"

text \<open>
  \<open>json_loads\<close> is \<open>json.loads\<close> on objects whose members are strings, the only JSON
  this server writes; every other text is \<open>None\<close> (for the caller below: an exception
  or a value without the type \<open>done\<close>). A repeated key keeps its first position and takes
  the last value, as in a Python dictionary. The fuel of \<open>scan_members\<close> is the length
  of the text, which bounds the number of members.
\<close>

definition hex_value :: "char \<Rightarrow> nat option" where
  "hex_value c =
     (let n = (of_char c :: nat) in
      if 48 \<le> n \<and> n \<le> 57 then Some (n - 48)
      else if 97 \<le> n \<and> n \<le> 102 then Some (n - 87)
      else if 65 \<le> n \<and> n \<le> 70 then Some (n - 55)
      else None)"

definition hex4 :: "char \<Rightarrow> char \<Rightarrow> char \<Rightarrow> char \<Rightarrow> nat option" where
  "hex4 a b c d =
     (case (hex_value a, hex_value b, hex_value c, hex_value d) of
        (Some w, Some x, Some y, Some z) \<Rightarrow> Some (((w * 16 + x) * 16 + y) * 16 + z)
      | _ \<Rightarrow> None)"

definition unescape :: "char \<Rightarrow> char option" where
  "unescape e =
     (if e = CHR 0x22 then Some (CHR 0x22)
      else if e = CHR 0x5C then Some (CHR 0x5C)
      else if e = CHR ''/'' then Some (CHR ''/'')
      else if e = CHR ''b'' then Some (CHR 0x08)
      else if e = CHR ''f'' then Some (CHR 0x0C)
      else if e = CHR ''n'' then Some (CHR 0x0A)
      else if e = CHR ''r'' then Some (CHR 0x0D)
      else if e = CHR ''t'' then Some (CHR 0x09)
      else None)"

definition push_char :: "char \<Rightarrow> (string \<times> string) option \<Rightarrow> (string \<times> string) option" where
  "push_char c r = map_option (\<lambda>(s, rest). (c # s, rest)) r"

fun scan_string :: "string \<Rightarrow> (string \<times> string) option" where
  "scan_string [] = None"
| "scan_string (c # cs) =
     (if c = CHR 0x22 then Some ([], cs)
      else if c = CHR 0x5C then
        (case cs of
           [] \<Rightarrow> None
         | e # es \<Rightarrow>
             if e = CHR ''u'' then
               (case es of
                  h1 # h2 # h3 # h4 # rest \<Rightarrow>
                    (case hex4 h1 h2 h3 h4 of
                       None \<Rightarrow> None
                     | Some n \<Rightarrow> if n < 256 then push_char (char_of n) (scan_string rest) else None)
                | _ \<Rightarrow> None)
             else
               (case unescape e of
                  None \<Rightarrow> None
                | Some x \<Rightarrow> push_char x (scan_string es)))
      else if (of_char c :: nat) < 0x20 then None
      else push_char c (scan_string cs))"

definition skip_ws :: "string \<Rightarrow> string" where
  "skip_ws s = dropWhile (\<lambda>c. c = CHR '' '' \<or> c = CHR 0x0A \<or> c = CHR 0x0D \<or> c = CHR 0x09) s"

definition dict_set :: "string \<Rightarrow> string \<Rightarrow> pydict \<Rightarrow> pydict" where
  "dict_set k v d = (if k \<in> fst ` set d then map (\<lambda>(k', v'). if k' = k then (k', v) else (k', v')) d else d @ [(k, v)])"

fun scan_members :: "nat \<Rightarrow> string \<Rightarrow> pydict \<Rightarrow> (pydict \<times> string) option" where
  "scan_members 0 s d = None"
| "scan_members (Suc n) s d =
     (case skip_ws s of
        [] \<Rightarrow> None
      | q # s1 \<Rightarrow>
          if q \<noteq> CHR 0x22 then None
          else (case scan_string s1 of
                  None \<Rightarrow> None
                | Some (k, s2) \<Rightarrow>
                    (case skip_ws s2 of
                       [] \<Rightarrow> None
                     | colon # s3 \<Rightarrow>
                         if colon \<noteq> CHR '':'' then None
                         else (case skip_ws s3 of
                                 [] \<Rightarrow> None
                               | q' # s4 \<Rightarrow>
                                   if q' \<noteq> CHR 0x22 then None
                                   else (case scan_string s4 of
                                           None \<Rightarrow> None
                                         | Some (v, s5) \<Rightarrow>
                                             (case skip_ws s5 of
                                                [] \<Rightarrow> None
                                              | x # s6 \<Rightarrow>
                                                  if x = CHR '','' then scan_members n s6 (dict_set k v d)
                                                  else if x = CHR ''}'' then Some (dict_set k v d, s6)
                                                  else None))))))"

definition json_loads :: "string \<Rightarrow> pydict option" where
  "json_loads s =
     (case skip_ws s of
        [] \<Rightarrow> None
      | c # s1 \<Rightarrow>
          if c \<noteq> CHR ''{'' then None
          else (case skip_ws s1 of
                  [] \<Rightarrow> None
                | c' # s2 \<Rightarrow>
                    if c' = CHR ''}'' then (if skip_ws s2 = [] then Some [] else None)
                    else (case scan_members (length s1) s1 [] of
                            None \<Rightarrow> None
                          | Some (d, s3) \<Rightarrow> if skip_ws s3 = [] then Some d else None)))"


subsection \<open>The lines put on \<open>audio_queue\<close>\<close>

text \<open>
  Each line is \<open>json.dumps({...}) + '\n'\<close>. The dictionary literals of the source are
  \<open>{'type': 'text', 'content': text_chunk}\<close>, \<open>{'type': 'audio', 'content': audio_b64}\<close>,
  \<open>{'type': 'done'}\<close>, \<open>{'type': 'error', 'content': str(e)}\<close> in \<open>stream_claude\<close> and
  \<open>{'type': 'error', 'content': f"TTS Error: {str(e)}"}\<close> in \<open>stream_fish_tts\<close>.
  An exception is represented by its message \<open>str(e)\<close>.
\<close>

type_synonym bytes = "8 word list"

definition text_event :: "string \<Rightarrow> pydict" where
  "text_event text_chunk = [(''type'', ''text''), (''content'', text_chunk)]"

definition audio_event :: "bytes \<Rightarrow> pydict" where
  "audio_event audio_chunk = [(''type'', ''audio''), (''content'', b64encode audio_chunk)]"

definition done_event :: pydict where
  "done_event = [(''type'', ''done'')]"

definition claude_error_event :: "string \<Rightarrow> pydict" where
  "claude_error_event e = [(''type'', ''error''), (''content'', e)]"

definition tts_error_event :: "string \<Rightarrow> pydict" where
  "tts_error_event e = [(''type'', ''error''), (''content'', ''TTS Error: '' @ e)]"

definition line :: "pydict \<Rightarrow> string" where
  "line d = json_dumps d @ [CHR 0x0A]"

text \<open>
  The test of the relay after a \<open>yield\<close>:
  \<open>try: chunk_data = json.loads(chunk); if chunk_data.get('type') == 'done': break\<close>
  \<open>except: pass\<close>.
\<close>

definition dict_get :: "pydict \<Rightarrow> string \<Rightarrow> string option" where
  "dict_get d k = map_of d k"

definition chunk_type :: "string \<Rightarrow> string option" where
  "chunk_type chunk = (case json_loads chunk of None \<Rightarrow> None | Some chunk_data \<Rightarrow> dict_get chunk_data ''type'')"

definition chunk_is_done :: "string \<Rightarrow> bool" where
  "chunk_is_done chunk = (chunk_type chunk = Some ''done'')"

subsection \<open>The two producers\<close>

text \<open>
  A producer acts on the shared objects only through \<open>text_buffer.add\<close>,
  \<open>text_buffer.finish\<close>, \<open>audio_queue.put\<close> and, inside the speech session, \<open>next\<close> on the
  iterator of \<open>text_buffer\<close>. The body of a producer is the sequence of these calls that
  it makes, given what its vendor stream does.
\<close>

datatype op = Add string | Finish | Put string | Next

datatype outcome = Completed | Raised string

text \<open>
  \<open>stream_claude\<close>: the language-model stream delivers the deltas \<open>text_chunks\<close> and then
  ends or raises (an exception before the first delta, such as a failed connection, is
  the case of no deltas). For each delta the loop calls \<open>text_buffer.add(text_chunk)\<close>
  and puts the text line (the local \<open>full_text\<close> is accumulated and never read). After the
  loop it calls \<open>finish\<close>; the handler calls \<open>finish\<close> and then puts the error line.
\<close>

fun stream_claude :: "string list \<Rightarrow> outcome \<Rightarrow> op list" where
  "stream_claude [] Completed = [Finish]"
| "stream_claude [] (Raised e) = [Finish, Put (line (claude_error_event e))]"
| "stream_claude (text_chunk # text_chunks) oc =
     Add text_chunk # Put (line (text_event text_chunk)) # stream_claude text_chunks oc"

text \<open>
  \<open>stream_fish_tts\<close>: the session \<open>ws_session.tts(TTSRequest(text=""), text_buffer)\<close> is
  vendor code. What it does is a parameter: the calls of \<open>next\<close> it makes on the iterator
  of \<open>text_buffer\<close> and the audio chunks it yields, in the order they happen, and how it
  ends. For each chunk the loop puts the audio line; after the loop it puts the done
  line; the handler puts the error line.
\<close>

datatype tts_action = Pull | Chunk bytes

fun stream_fish_tts :: "tts_action list \<Rightarrow> outcome \<Rightarrow> op list" where
  "stream_fish_tts [] Completed = [Put (line done_event)]"
| "stream_fish_tts [] (Raised e) = [Put (line (tts_error_event e))]"
| "stream_fish_tts (Pull # session) oc = Next # stream_fish_tts session oc"
| "stream_fish_tts (Chunk audio_chunk # session) oc =
     Put (line (audio_event audio_chunk)) # stream_fish_tts session oc"

subsection \<open>The session of one request\<close>

text \<open>
  \<open>generate_audio\<close> creates \<open>text_buffer\<close> and \<open>audio_queue\<close>, starts both threads and
  enters its loop. The control points of the loop are the call
  \<open>audio_queue.get(timeout=0.1)\<close>, the three tests of the handler of \<open>queue.Empty\<close>
  (\<open>claude_thread.is_alive()\<close>, \<open>fish_thread.is_alive()\<close>, \<open>audio_queue.empty()\<close>) and the
  exit of the loop. A thread is alive while it has calls left. \<open>tts_received\<close> is the text
  the speech session has taken from the buffer, \<open>yielded\<close> the lines sent to the client,
  which is taken to read every line it is sent. The two \<open>join(timeout=5)\<close> after the loop
  change nothing in the shared objects; durations are not part of the model, a timeout
  of \<open>get\<close> is a step taken on an empty queue.
\<close>

datatype relay_pc = R_get | R_empty | R_fish_alive | R_queue_empty | R_stopped

record session =
  text_buffer :: TextStreamBuffer
  text_iter :: gen_pc
  tts_received :: "string list"
  audio_queue :: "string list"
  claude_thread :: "op list"
  fish_thread :: "op list"
  relay :: relay_pc
  yielded :: "string list"

definition init_session :: "string list \<Rightarrow> outcome \<Rightarrow> tts_action list \<Rightarrow> outcome \<Rightarrow> session" where
  "init_session text_chunks oc tts toc =
     \<lparr>text_buffer = init_buffer, text_iter = G_while, tts_received = [], audio_queue = [],
      claude_thread = stream_claude text_chunks oc, fish_thread = stream_fish_tts tts toc,
      relay = R_get, yielded = []\<rparr>"

text \<open>
  One call of a producer. The result says whether the call has returned: \<open>next\<close> has
  returned when the generator has yielded or has ended; until then the producer stays
  in it.
\<close>

fun exec_op :: "op \<Rightarrow> session \<Rightarrow> session \<times> bool" where
  "exec_op (Add text) s = (s\<lparr>text_buffer := add text (text_buffer s)\<rparr>, True)"
| "exec_op Finish s = (s\<lparr>text_buffer := finish (text_buffer s)\<rparr>, True)"
| "exec_op (Put l) s = (s\<lparr>audio_queue := audio_queue s @ [l]\<rparr>, True)"
| "exec_op Next s =
     (case iter_step (text_iter s) (text_buffer s) of
        (g', y, b') \<Rightarrow>
          (s\<lparr>text_buffer := b', text_iter := g',
             tts_received := tts_received s @ (case y of None \<Rightarrow> [] | Some x \<Rightarrow> [x])\<rparr>,
           y \<noteq> None \<or> g' = G_finished))"

definition relay_step :: "session \<Rightarrow> session" where
  "relay_step s =
     (case relay s of
        R_get \<Rightarrow>
          (case audio_queue s of
             chunk # rest \<Rightarrow>
               s\<lparr>audio_queue := rest, yielded := yielded s @ [chunk],
                  relay := (if chunk_is_done chunk then R_stopped else R_get)\<rparr>
           | [] \<Rightarrow> s\<lparr>relay := R_empty\<rparr>)
      | R_empty \<Rightarrow> s\<lparr>relay := (if claude_thread s = [] then R_fish_alive else R_get)\<rparr>
      | R_fish_alive \<Rightarrow> s\<lparr>relay := (if fish_thread s = [] then R_queue_empty else R_get)\<rparr>
      | R_queue_empty \<Rightarrow> s\<lparr>relay := (if audio_queue s = [] then R_stopped else R_get)\<rparr>
      | R_stopped \<Rightarrow> s)"

datatype thread = Claude | Fish | Relay

text \<open>
  The scheduler picks the unit that moves next. A schedule is the list of its picks;
  picking a thread that has ended changes nothing.
\<close>

fun step :: "thread \<Rightarrow> session \<Rightarrow> session" where
  "step Claude s =
     (case claude_thread s of
        [] \<Rightarrow> s
      | c # cs \<Rightarrow> (case exec_op c s of (s', returned) \<Rightarrow> s'\<lparr>claude_thread := (if returned then cs else c # cs)\<rparr>))"
| "step Fish s =
     (case fish_thread s of
        [] \<Rightarrow> s
      | c # cs \<Rightarrow> (case exec_op c s of (s', returned) \<Rightarrow> s'\<lparr>fish_thread := (if returned then cs else c # cs)\<rparr>))"
| "step Relay s = relay_step s"

definition run :: "thread list \<Rightarrow> session \<Rightarrow> session" where
  "run schedule s = fold step schedule s"

text \<open>The calls of one kind in a sequence of calls.\<close>

fun puts :: "op list \<Rightarrow> string list" where
  "puts [] = []"
| "puts (Put l # cs) = l # puts cs"
| "puts (c # cs) = puts cs"

fun adds :: "op list \<Rightarrow> string list" where
  "adds [] = []"
| "adds (Add text # cs) = text # adds cs"
| "adds (c # cs) = adds cs"

text \<open>The chunks a speech session yields.\<close>

fun chunks :: "tts_action list \<Rightarrow> bytes list" where
  "chunks [] = []"
| "chunks (Chunk a # session) = a # chunks session"
| "chunks (Pull # session) = chunks session"

subsection \<open>Observations of a session\<close>

text \<open>
  The lines of a session: those yielded, those waiting in \<open>audio_queue\<close> and those the
  producers have still to put.
\<close>

definition lines_of :: "session \<Rightarrow> string set" where
  "lines_of s =
     set (yielded s) \<union> set (audio_queue s) \<union> set (puts (claude_thread s)) \<union> set (puts (fish_thread s))"

text \<open>Neither the buffer nor the text taken by the speech session holds an empty fragment.\<close>

definition no_empty_fragment :: "session \<Rightarrow> bool" where
  "no_empty_fragment s = ([] \<notin> set (queue (text_buffer s)) \<union> set (tts_received s))"

text \<open>The buffer is closed, or \<open>stream_claude\<close> has the call of \<open>finish\<close> before it.\<close>

definition closes :: "session \<Rightarrow> bool" where
  "closes s = (Finish \<in> set (claude_thread s) \<or> done_flag (text_buffer s))"

definition is_text_line :: "string \<Rightarrow> bool" where
  "is_text_line l = (chunk_type l = Some ''text'')"

definition is_error_line :: "string \<Rightarrow> bool" where
  "is_error_line l = (chunk_type l = Some ''error'')"

text \<open>The number of times a schedule picks a thread.\<close>

definition picks :: "thread \<Rightarrow> thread list \<Rightarrow> nat" where
  "picks t ts = length (filter (\<lambda>u. u = t) ts)"

text \<open>
  The handler of \<open>queue.Empty\<close> in the relay, run from its first test to the point where
  the loop continues or is left, with no step of a producer in between.
\<close>

definition on_timeout :: "session \<Rightarrow> session" where
  "on_timeout s =
     (let s1 = step Relay s in
      if relay s1 \<noteq> R_fish_alive then s1
      else let s2 = step Relay s1 in
           if relay s2 \<noteq> R_queue_empty then s2 else step Relay s2)"

text \<open>
  In the handler the relay has found a thread ended before it makes the next test.
\<close>

definition handler_inv :: "session \<Rightarrow> bool" where
  "handler_inv s =
     ((relay s = R_fish_alive \<longrightarrow> claude_thread s = [])
      \<and> (relay s = R_queue_empty \<longrightarrow> claude_thread s = [] \<and> fish_thread s = []))"

text \<open>
  A bound on the steps the relay still takes once both producers have ended.
\<close>

definition relay_left :: "session \<Rightarrow> nat" where
  "relay_left s =
     (case relay s of
        R_stopped \<Rightarrow> 0
      | R_get \<Rightarrow> length (audio_queue s) + 4
      | R_queue_empty \<Rightarrow> (if audio_queue s = [] then 1 else length (audio_queue s) + 5)
      | R_fish_alive \<Rightarrow> (if audio_queue s = [] then 2 else length (audio_queue s) + 6)
      | R_empty \<Rightarrow> (if audio_queue s = [] then 3 else length (audio_queue s) + 7))"

text \<open>
  Bounds on the steps the speech thread still takes once the buffer is closed: a call
  of \<open>next\<close> then returns after at most two steps of the generator.
\<close>

definition next_cost :: "session \<Rightarrow> nat" where
  "next_cost s =
     (if (text_iter s = G_while \<and> queue (text_buffer s) \<noteq> [])
         \<or> (text_iter s = G_get \<and> queue (text_buffer s) = []) then 2 else 1)"

definition fish_left :: "session \<Rightarrow> nat" where
  "fish_left s =
     (case fish_thread s of
        [] \<Rightarrow> 0
      | c # cs \<Rightarrow> 2 * length cs + (if c = Next then next_cost s else 1))"

text \<open>The lines not yet yielded: those in the queue and those still to be put.\<close>

definition pending :: "session \<Rightarrow> nat" where
  "pending s =
     length (audio_queue s) + length (puts (claude_thread s)) + length (puts (fish_thread s))"

definition is_audio_line :: "string \<Rightarrow> bool" where
  "is_audio_line l = (chunk_type l = Some ''audio'')"

text \<open>
  While \<open>stream_claude\<close> has calls left the buffer is open, \<open>finish\<close> is its last call and
  no other call of \<open>finish\<close> is left: the shape of the thread on a stream that ends
  normally.
\<close>

definition closed_only_at_end :: "session \<Rightarrow> bool" where
  "closed_only_at_end s =
     ((claude_thread s = []
       \<or> (\<not> done_flag (text_buffer s) \<and> last (claude_thread s) = Finish
          \<and> Finish \<notin> set (butlast (claude_thread s))))
      \<and> Finish \<notin> set (fish_thread s))"

text \<open>The generator ends only on a closed buffer.\<close>

definition finished_closed :: "session \<Rightarrow> bool" where
  "finished_closed s = (text_iter s = G_finished \<longrightarrow> done_flag (text_buffer s))"

text \<open>
  The calls of \<open>next\<close> left in a thread, and the account of the \<open>n\<close> calls of a speech
  session: unless the generator has ended, each call that has returned has taken a
  fragment.
\<close>

definition nexts :: "op list \<Rightarrow> nat" where
  "nexts cs = length (filter (\<lambda>c. c = Next) cs)"

definition pulls_inv :: "nat \<Rightarrow> session \<Rightarrow> bool" where
  "pulls_inv n s =
     (text_iter s = G_finished \<or> n \<le> length (tts_received s) + nexts (fish_thread s))"

text \<open>
  Once \<open>stream_fish_tts\<close> has ended, the done line is the last line of the queue until
  the relay takes it, and the queue is empty when the relay has stopped.
\<close>

definition done_last :: "session \<Rightarrow> bool" where
  "done_last s =
     (fish_thread s = [] \<longrightarrow>
        (relay s = R_stopped \<longrightarrow> audio_queue s = [])
        \<and> (relay s \<noteq> R_stopped \<longrightarrow> audio_queue s \<noteq> [] \<and> chunk_is_done (last (audio_queue s))))"

subsection \<open>Facts about the buffer\<close>

lemma queue_add: "queue (add f b) = queue b @ (if f = [] then [] else [f])"
  by (simp add: add_def)

lemma done_flag_add: "done_flag (add f b) = done_flag b"
  by (simp add: add_def)

lemma queue_add_all: "queue (add_all fs b) = queue b @ filter (\<lambda>f. f \<noteq> []) fs"
  unfolding add_all_def
  by (induction fs arbitrary: b) (simp_all add: queue_add)

lemma done_flag_add_all: "done_flag (add_all fs b) = done_flag b"
  unfolding add_all_def
  by (induction fs arbitrary: b) (simp_all add: done_flag_add)

lemma iterate_finished: "iterate G_finished b = Some []"
  by (subst iterate.simps) simp

lemma iterate_closed_empty:
  assumes "done_flag b" "queue b = []"
  shows "iterate G_while b = Some []"
  using assms by (subst iterate.simps) (simp add: iterate_finished)

lemma iterate_closed:
  "done_flag b \<Longrightarrow> iterate G_while b = Some (queue b)"
proof (induction "queue b" arbitrary: b)
  case Nil
  then show ?case by (simp add: iterate_closed_empty)
next
  case (Cons x xs)
  have q: "queue b = x # xs" using Cons.hyps(2) by simp
  have step: "iterate G_while (b\<lparr>queue := xs\<rparr>) = Some xs"
    using Cons.hyps(1)[of "b\<lparr>queue := xs\<rparr>"] Cons.prems by simp
  have get: "iterate G_get b = Some (x # xs)"
    by (subst iterate.simps) (simp add: q step)
  show ?case
    by (subst iterate.simps) (simp add: q get)
qed

text \<open>On an open buffer the iterator never ends: a result exists only on a closed buffer.\<close>

lemma iter_step_done_flag: "iter_step g b = (g', y, b') \<Longrightarrow> done_flag b' = done_flag b"
  by (cases g) (auto split: if_splits list.splits)

lemma iter_step_finished:
  "iter_step g b = (G_finished, y, b') \<Longrightarrow> g = G_finished \<or> done_flag b"
  by (cases g) (auto split: if_splits list.splits)

lemma iterate_Some_closed:
  assumes "iterate g b = Some ys"
  shows "g = G_finished \<or> done_flag b"
proof (rule iterate.raw_induct[where P = "\<lambda>g b ys. g = G_finished \<or> done_flag b", OF _ assms])
  fix it h c zs
  assume ih: "\<And>h' c' ws. it h' c' = Some ws \<Longrightarrow> h' = G_finished \<or> done_flag c'"
    and eq: "(if h = G_finished then Some []
      else case iter_step h c of
           (g', y, b') \<Rightarrow>
             Option.bind (it g' b')
              (\<lambda>ys. Some (case y of None \<Rightarrow> ys | Some x \<Rightarrow> x # ys))) = Some zs"
  show "h = G_finished \<or> done_flag c"
  proof (cases "h = G_finished")
    case True
    then show ?thesis by simp
  next
    case False
    obtain h' y c' where st: "iter_step h c = (h', y, c')"
      by (cases "iter_step h c") auto
    from eq False st obtain ws where "it h' c' = Some ws"
      by (auto simp: bind_eq_Some_conv)
    then have "h' = G_finished \<or> done_flag c'" by (rule ih)
    then show ?thesis
      using iter_step_done_flag[OF st] iter_step_finished[of h c y c'] st by auto
  qed
qed

lemma iterate_open: "\<not> done_flag b \<Longrightarrow> g \<noteq> G_finished \<Longrightarrow> iterate g b = None"
  using iterate_Some_closed[of g b] by (cases "iterate g b") auto

subsection \<open>Facts about the serialisation\<close>

lemma hex_value_digit: "n < 16 \<Longrightarrow> hex_value (hex_digit n) = Some n"
proof -
  assume "n < 16"
  then have "n \<in> set [0..<16]" by simp
  then show ?thesis
    by (auto simp: hex_value_def hex_digit_def eval_nat_numeral upt_rec)
qed

lemma hex4_of_char:
  "hex4 CHR ''0'' CHR ''0'' (hex_digit (of_char c div 16)) (hex_digit (of_char c mod 16))
     = Some (of_char c)"
proof -
  let ?n = "of_char c :: nat"
  have "?n < 256" by simp
  then have hi: "?n div 16 < 16" by presburger
  have lo: "?n mod 16 < 16" by simp
  have z: "hex_value CHR ''0'' = Some 0" by (simp add: hex_value_def)
  show ?thesis
    by (simp add: hex4_def z hex_value_digit[OF hi] hex_value_digit[OF lo])
qed

lemma scan_escape_char:
  "scan_string (escape_char c @ rest) = push_char c (scan_string rest)"
proof (cases "c \<in> {CHR 0x22, CHR 0x5C, CHR 0x0A, CHR 0x0D, CHR 0x09, CHR 0x08, CHR 0x0C}")
  case True
  then show ?thesis by (auto simp: escape_char_def unescape_def)
next
  case False
  show ?thesis
  proof (cases "(0x20::nat) \<le> of_char c \<and> of_char c \<le> (0x7E::nat)")
    case True
    with False show ?thesis by (simp add: escape_char_def)
  next
    case F2: False
    have esc: "escape_char c = [CHR 0x5C, CHR ''u'', CHR ''0'', CHR ''0'',
            hex_digit (of_char c div 16), hex_digit (of_char c mod 16)]"
      using False F2 by (simp add: escape_char_def)
    show ?thesis
      by (simp add: esc hex4_of_char)
  qed
qed

lemma scan_json_string:
  "scan_string (concat (map escape_char s) @ CHR 0x22 # rest) = Some (s, rest)"
  by (induction s) (simp_all add: scan_escape_char push_char_def)

lemmas json_unfold =
  line_def json_loads_def json_dumps_def json_item_def json_string_def skip_ws_def
  escape_char_def scan_json_string dict_set_def push_char_def

lemma loads_text_line: "json_loads (line (text_event f)) = Some (text_event f)"
  by (simp add: text_event_def json_unfold)

lemma loads_audio_line: "json_loads (line (audio_event a)) = Some (audio_event a)"
  by (simp add: audio_event_def json_unfold)

lemma loads_done_line: "json_loads (line done_event) = Some done_event"
  by (simp add: done_event_def json_unfold)

lemma loads_claude_error_line:
  "json_loads (line (claude_error_event e)) = Some (claude_error_event e)"
  by (simp add: claude_error_event_def json_unfold)

lemma loads_tts_error_line:
  "json_loads (line (tts_error_event e)) = Some (tts_error_event e)"
  by (simp add: tts_error_event_def json_unfold)

lemmas loads_line =
  loads_text_line loads_audio_line loads_done_line loads_claude_error_line loads_tts_error_line

lemma chunk_type_lines:
  "chunk_type (line (text_event f)) = Some ''text''"
  "chunk_type (line (audio_event a)) = Some ''audio''"
  "chunk_type (line done_event) = Some ''done''"
  "chunk_type (line (claude_error_event e)) = Some ''error''"
  "chunk_type (line (tts_error_event e)) = Some ''error''"
  by (simp_all add: chunk_type_def loads_line)
     (simp_all add: dict_get_def text_event_def audio_event_def
        done_event_def claude_error_event_def tts_error_event_def)

lemma chunk_is_done_lines:
  "\<not> chunk_is_done (line (text_event f))"
  "\<not> chunk_is_done (line (audio_event a))"
  "chunk_is_done (line done_event)"
  "\<not> chunk_is_done (line (claude_error_event e))"
  "\<not> chunk_is_done (line (tts_error_event e))"
  by (simp_all add: chunk_is_done_def chunk_type_lines)

lemma text_line_inject: "line (text_event f) = line (text_event f') \<Longrightarrow> f = f'"
proof -
  assume "line (text_event f) = line (text_event f')"
  then have "json_loads (line (text_event f)) = json_loads (line (text_event f'))" by simp
  then have "text_event f = text_event f'" by (simp only: loads_text_line option.inject)
  then show "f = f'" by (simp add: text_event_def)
qed

text \<open>The serialisation of a dictionary has no newline in it: a line is one line.\<close>

lemma hex_digit_not_newline: "n < 16 \<Longrightarrow> hex_digit n \<noteq> CHR 0x0A"
proof -
  assume "n < 16"
  then have "n \<in> set [0..<16]" by simp
  then show ?thesis
    by (auto simp: hex_digit_def eval_nat_numeral upt_rec)
qed

lemma newline_notin_escape_char: "CHR 0x0A \<notin> set (escape_char c)"
proof -
  have "(of_char c :: nat) < 256" by simp
  then have hi: "(of_char c :: nat) div 16 < 16" by presburger
  have lo: "(of_char c :: nat) mod 16 < 16" by simp
  show ?thesis
    using hex_digit_not_newline[OF hi] hex_digit_not_newline[OF lo]
    by (auto simp: escape_char_def)
qed

lemma newline_notin_json_string: "CHR 0x0A \<notin> set (json_string s)"
  by (induction s) (auto simp: json_string_def newline_notin_escape_char)

lemma newline_notin_json_item: "CHR 0x0A \<notin> set (json_item kv)"
  using newline_notin_json_string by (auto simp: json_item_def)

lemma newline_notin_join:
  "\<forall>x \<in> set xs. CHR 0x0A \<notin> set x \<Longrightarrow> CHR 0x0A \<notin> set (join '', '' xs)"
  by (induction "'', ''" xs rule: join.induct) auto

lemma newline_notin_json_dumps: "CHR 0x0A \<notin> set (json_dumps d)"
  using newline_notin_join[of "map json_item d"] newline_notin_json_item
  by (auto simp: json_dumps_def)

subsection \<open>Facts about the producers\<close>

lemma puts_append: "puts (xs @ ys) = puts xs @ puts ys"
  by (induction xs rule: puts.induct) simp_all

lemma puts_stream_claude:
  "puts (stream_claude fs oc) =
     map (\<lambda>f. line (text_event f)) fs @
     (case oc of Completed \<Rightarrow> [] | Raised e \<Rightarrow> [line (claude_error_event e)])"
  by (induction fs oc rule: stream_claude.induct) simp_all

lemma adds_stream_claude: "adds (stream_claude fs oc) = fs"
  by (induction fs oc rule: stream_claude.induct) simp_all

lemma Next_notin_stream_claude: "Next \<notin> set (stream_claude fs oc)"
  by (induction fs oc rule: stream_claude.induct) simp_all

lemma Finish_in_stream_claude: "Finish \<in> set (stream_claude fs oc)"
  by (induction fs oc rule: stream_claude.induct) simp_all

lemma length_stream_claude:
  "length (stream_claude fs oc) =
     2 * length fs + (case oc of Completed \<Rightarrow> 1 | Raised e \<Rightarrow> 2)"
  by (induction fs oc rule: stream_claude.induct) simp_all

lemma puts_stream_fish_tts:
  "puts (stream_fish_tts tts toc) =
     map (\<lambda>a. line (audio_event a)) (chunks tts) @
     [case toc of Completed \<Rightarrow> line done_event | Raised e \<Rightarrow> line (tts_error_event e)]"
  by (induction tts toc rule: stream_fish_tts.induct) simp_all

lemma adds_stream_fish_tts: "adds (stream_fish_tts tts toc) = []"
  by (induction tts toc rule: stream_fish_tts.induct) simp_all

lemma Finish_notin_stream_fish_tts: "Finish \<notin> set (stream_fish_tts tts toc)"
  by (induction tts toc rule: stream_fish_tts.induct) simp_all

subsection \<open>Facts about steps and schedules\<close>

lemma run_Nil: "run [] s = s"
  by (simp add: run_def)

lemma run_Cons: "run (t # ts) s = run ts (step t s)"
  by (simp add: run_def)

lemma run_append: "run (ts @ us) s = run us (run ts s)"
  by (simp add: run_def)

lemma run_snoc: "run (ts @ [t]) s = step t (run ts s)"
  by (simp add: run_def)

lemma run_invariant:
  assumes "P s" and "\<And>t s'. P s' \<Longrightarrow> P (step t s')"
  shows "P (run ts s)"
  using assms(1)
proof (induction ts arbitrary: s)
  case Nil
  then show ?case by (simp add: run_Nil)
next
  case (Cons t ts)
  then show ?case by (simp add: run_Cons assms(2))
qed

lemma puts_Cons: "puts (c # cs) = puts [c] @ puts cs"
  by (cases c) simp_all

lemma exec_op_threads:
  "claude_thread (fst (exec_op c s)) = claude_thread s"
  "fish_thread (fst (exec_op c s)) = fish_thread s"
  "relay (fst (exec_op c s)) = relay s"
  "yielded (fst (exec_op c s)) = yielded s"
  by (cases c; simp split: prod.splits)+

lemma exec_op_audio_queue:
  "audio_queue (fst (exec_op c s)) = audio_queue s @ puts [c]"
  by (cases c) (simp_all split: prod.splits)

lemma exec_op_returns: "c \<noteq> Next \<Longrightarrow> snd (exec_op c s)"
  by (cases c) simp_all

lemma exec_op_Next_puts: "\<not> snd (exec_op c s) \<Longrightarrow> puts [c] = []"
  by (cases c) simp_all

lemma step_Claude_Nil: "claude_thread s = [] \<Longrightarrow> step Claude s = s"
  by simp

lemma step_Fish_Nil: "fish_thread s = [] \<Longrightarrow> step Fish s = s"
  by simp

lemma step_Relay: "step Relay s = relay_step s"
  by simp

lemma step_Claude_Cons:
  "claude_thread s = c # cs \<Longrightarrow>
   step Claude s = (fst (exec_op c s))\<lparr>claude_thread := (if snd (exec_op c s) then cs else c # cs)\<rparr>"
  by (simp split: prod.splits)

lemma step_Fish_Cons:
  "fish_thread s = c # cs \<Longrightarrow>
   step Fish s = (fst (exec_op c s))\<lparr>fish_thread := (if snd (exec_op c s) then cs else c # cs)\<rparr>"
  by (simp split: prod.splits)

declare step.simps [simp del] exec_op.simps [simp del]

lemma step_Claude_others:
  "fish_thread (step Claude s) = fish_thread s"
  "relay (step Claude s) = relay s"
  "yielded (step Claude s) = yielded s"
  by (cases "claude_thread s"; simp add: step_Claude_Nil step_Claude_Cons exec_op_threads)+

lemma step_Fish_others:
  "claude_thread (step Fish s) = claude_thread s"
  "relay (step Fish s) = relay s"
  "yielded (step Fish s) = yielded s"
  by (cases "fish_thread s"; simp add: step_Fish_Nil step_Fish_Cons exec_op_threads)+

lemma step_Relay_others:
  "text_buffer (step Relay s) = text_buffer s"
  "text_iter (step Relay s) = text_iter s"
  "tts_received (step Relay s) = tts_received s"
  "claude_thread (step Relay s) = claude_thread s"
  "fish_thread (step Relay s) = fish_thread s"
  by (simp_all add: step_Relay relay_step_def split: relay_pc.splits list.splits)

lemma step_Relay_lines: "yielded (step Relay s) @ audio_queue (step Relay s) = yielded s @ audio_queue s"
  by (simp add: step_Relay relay_step_def split: relay_pc.splits list.splits)

lemma step_Claude_lines:
  "audio_queue (step Claude s) @ puts (claude_thread (step Claude s)) =
   audio_queue s @ puts (claude_thread s)"
proof (cases "claude_thread s")
  case Nil
  then show ?thesis by (simp add: step_Claude_Nil)
next
  case (Cons c cs)
  show ?thesis
    using exec_op_Next_puts[of c s] puts_Cons[of c cs]
    by (simp add: step_Claude_Cons[OF Cons] exec_op_audio_queue Cons)
qed

lemma step_Fish_lines:
  "audio_queue (step Fish s) @ puts (fish_thread (step Fish s)) =
   audio_queue s @ puts (fish_thread s)"
proof (cases "fish_thread s")
  case Nil
  then show ?thesis by (simp add: step_Fish_Nil)
next
  case (Cons c cs)
  show ?thesis
    using exec_op_Next_puts[of c s] puts_Cons[of c cs]
    by (simp add: step_Fish_Cons[OF Cons] exec_op_audio_queue Cons)
qed

subsection \<open>Invariants of a session\<close>

lemma lines_of_step: "lines_of (step t s) = lines_of s"
proof (cases t)
  case Claude
  have "set (audio_queue (step Claude s) @ puts (claude_thread (step Claude s))) =
        set (audio_queue s @ puts (claude_thread s))"
    by (simp only: step_Claude_lines)
  then show ?thesis
    unfolding lines_of_def Claude by (simp add: step_Claude_others) blast
next
  case Fish
  have "set (audio_queue (step Fish s) @ puts (fish_thread (step Fish s))) =
        set (audio_queue s @ puts (fish_thread s))"
    by (simp only: step_Fish_lines)
  then show ?thesis
    unfolding lines_of_def Fish by (simp add: step_Fish_others) blast
next
  case Relay
  have "set (yielded (step Relay s) @ audio_queue (step Relay s)) =
        set (yielded s @ audio_queue s)"
    by (simp only: step_Relay_lines)
  then show ?thesis
    unfolding lines_of_def Relay by (simp add: step_Relay_others)
qed

lemma lines_of_run: "lines_of (run ts s) = lines_of s"
  by (rule run_invariant[where P = "\<lambda>s'. lines_of s' = lines_of s"]) (simp_all add: lines_of_step)

lemma lines_of_init:
  "lines_of (init_session fs oc tts toc) =
     set (puts (stream_claude fs oc)) \<union> set (puts (stream_fish_tts tts toc))"
  by (simp add: lines_of_def init_session_def)

lemma no_empty_fragment_exec_op:
  "no_empty_fragment s \<Longrightarrow> no_empty_fragment (fst (exec_op c s))"
proof (cases c)
  case Next
  assume "no_empty_fragment s"
  then show ?thesis
    unfolding Next no_empty_fragment_def
    by (cases "text_iter s") (auto simp: exec_op.simps split: list.splits)
qed (auto simp: no_empty_fragment_def exec_op.simps add_def finish_def)

lemma no_empty_fragment_step:
  "no_empty_fragment s \<Longrightarrow> no_empty_fragment (step t s)"
proof (cases t)
  case Claude
  assume a: "no_empty_fragment s"
  show ?thesis
  proof (cases "claude_thread s")
    case Nil
    with a show ?thesis by (simp add: Claude step_Claude_Nil)
  next
    case (Cons c cs)
    show ?thesis
      using no_empty_fragment_exec_op[OF a, of c]
      by (simp add: Claude step_Claude_Cons[OF Cons] no_empty_fragment_def)
  qed
next
  case Fish
  assume a: "no_empty_fragment s"
  show ?thesis
  proof (cases "fish_thread s")
    case Nil
    with a show ?thesis by (simp add: Fish step_Fish_Nil)
  next
    case (Cons c cs)
    show ?thesis
      using no_empty_fragment_exec_op[OF a, of c]
      by (simp add: Fish step_Fish_Cons[OF Cons] no_empty_fragment_def)
  qed
next
  case Relay
  assume "no_empty_fragment s"
  then show ?thesis
    by (simp add: Relay no_empty_fragment_def step_Relay_others)
qed

lemma no_empty_fragment_run:
  "no_empty_fragment s \<Longrightarrow> no_empty_fragment (run ts s)"
  by (rule run_invariant) (simp_all add: no_empty_fragment_step)

lemma no_empty_fragment_init: "no_empty_fragment (init_session fs oc tts toc)"
  by (simp add: no_empty_fragment_def init_session_def init_buffer_def)

lemmas session_eval =
  run_def step.simps exec_op.simps relay_step_def init_session_def init_buffer_def
  add_def finish_def chunk_is_done_lines

text \<open>A producer never takes back a call: its remaining calls only shrink.\<close>

lemma adds_Cons: "adds (c # cs) = adds [c] @ adds cs"
  by (cases c) simp_all

lemma step_Fish_suffix: "\<exists>pre. fish_thread s = pre @ fish_thread (step Fish s)"
proof (cases "fish_thread s")
  case Nil
  then show ?thesis by (simp add: step_Fish_Nil)
next
  case (Cons c cs)
  show ?thesis
    by (cases "snd (exec_op c s)") (simp_all add: step_Fish_Cons[OF Cons] Cons)
qed

lemma step_Claude_suffix: "\<exists>pre. claude_thread s = pre @ claude_thread (step Claude s)"
proof (cases "claude_thread s")
  case Nil
  then show ?thesis by (simp add: step_Claude_Nil)
next
  case (Cons c cs)
  show ?thesis
    by (cases "snd (exec_op c s)") (simp_all add: step_Claude_Cons[OF Cons] Cons)
qed

lemma set_fish_thread_step: "set (fish_thread (step t s)) \<subseteq> set (fish_thread s)"
proof (cases t)
  case Fish
  obtain pre where "fish_thread s = pre @ fish_thread (step Fish s)"
    using step_Fish_suffix by blast
  then have "set (fish_thread s) = set pre \<union> set (fish_thread (step Fish s))"
    by (metis set_append)
  then show ?thesis unfolding Fish by blast
qed (simp_all add: step_Claude_others step_Relay_others)

lemma set_claude_thread_step: "set (claude_thread (step t s)) \<subseteq> set (claude_thread s)"
proof (cases t)
  case Claude
  obtain pre where "claude_thread s = pre @ claude_thread (step Claude s)"
    using step_Claude_suffix by blast
  then have "set (claude_thread s) = set pre \<union> set (claude_thread (step Claude s))"
    by (metis set_append)
  then show ?thesis unfolding Claude by blast
qed (simp_all add: step_Fish_others step_Relay_others)

lemma set_puts: "set (puts cs) = {l. Put l \<in> set cs}"
  by (induction cs rule: puts.induct) auto

lemma set_adds: "set (adds cs) = {f. Add f \<in> set cs}"
  by (induction cs rule: adds.induct) auto

text \<open>
  Lines are conserved: what has been yielded, what waits in \<open>audio_queue\<close> and what
  \<open>stream_claude\<close> has still to put, restricted to the lines of a kind that
  \<open>stream_fish_tts\<close> never puts, is the same sequence in every state.
\<close>

lemma claude_lines_step:
  assumes "\<forall>l \<in> set (puts (fish_thread s)). \<not> P l"
  shows "filter P (yielded (step t s) @ audio_queue (step t s)) @ filter P (puts (claude_thread (step t s)))
       = filter P (yielded s @ audio_queue s) @ filter P (puts (claude_thread s))"
proof (cases t)
  case Claude
  have "filter P (audio_queue (step Claude s) @ puts (claude_thread (step Claude s)))
      = filter P (audio_queue s @ puts (claude_thread s))"
    by (simp only: step_Claude_lines)
  then show ?thesis unfolding Claude by (simp add: step_Claude_others)
next
  case Fish
  have eq: "filter P (audio_queue (step Fish s) @ puts (fish_thread (step Fish s)))
      = filter P (audio_queue s @ puts (fish_thread s))"
    by (simp only: step_Fish_lines)
  have "set (puts (fish_thread (step Fish s))) \<subseteq> set (puts (fish_thread s))"
    using set_fish_thread_step[of Fish s] by (auto simp: set_puts)
  then have "filter P (puts (fish_thread (step Fish s))) = []"
    using assms by (auto simp: filter_empty_conv)
  moreover have "filter P (puts (fish_thread s)) = []"
    using assms by (auto simp: filter_empty_conv)
  ultimately have "filter P (audio_queue (step Fish s)) = filter P (audio_queue s)"
    using eq by simp
  then show ?thesis unfolding Fish by (simp add: step_Fish_others)
next
  case Relay
  have "filter P (yielded (step Relay s) @ audio_queue (step Relay s))
      = filter P (yielded s @ audio_queue s)"
    by (simp only: step_Relay_lines)
  then show ?thesis unfolding Relay by (simp add: step_Relay_others)
qed

lemma claude_lines_run:
  assumes "\<forall>l \<in> set (puts (fish_thread s)). \<not> P l"
  shows "filter P (yielded (run ts s) @ audio_queue (run ts s)) @ filter P (puts (claude_thread (run ts s)))
       = filter P (yielded s @ audio_queue s) @ filter P (puts (claude_thread s))"
proof -
  let ?I = "\<lambda>s'::session. (\<forall>l \<in> set (puts (fish_thread s')). \<not> P l)
      \<and> filter P (yielded s' @ audio_queue s') @ filter P (puts (claude_thread s'))
        = filter P (yielded s @ audio_queue s) @ filter P (puts (claude_thread s))"
  have "?I (run ts s)"
  proof (rule run_invariant)
    show "?I s" using assms by simp
  next
    fix t s'
    assume I: "?I s'"
    have "set (puts (fish_thread (step t s'))) \<subseteq> set (puts (fish_thread s'))"
      using set_fish_thread_step[of t s'] by (auto simp: set_puts)
    then show "?I (step t s')"
      using I claude_lines_step[of s' P t] by auto
  qed
  then show ?thesis by simp
qed

text \<open>
  Fragments are conserved: the text taken by the speech session, the fragments in the
  buffer and the non-empty fragments \<open>stream_claude\<close> has still to add are the same
  sequence in every state.
\<close>

lemma exec_op_fragments:
  "tts_received (fst (exec_op c s)) @ queue (text_buffer (fst (exec_op c s)))
     = tts_received s @ queue (text_buffer s) @ filter (\<lambda>f. f \<noteq> []) (adds [c])"
proof (cases c)
  case Next
  show ?thesis
    unfolding Next
    by (cases "text_iter s") (simp_all add: exec_op.simps split: list.splits)
qed (simp_all add: exec_op.simps add_def finish_def)

lemma exec_op_not_returned_adds: "\<not> snd (exec_op c s) \<Longrightarrow> adds [c] = []"
  by (cases c) (simp_all add: exec_op.simps)

lemma fragments_step:
  assumes "adds (fish_thread s) = []"
  shows "tts_received (step t s) @ queue (text_buffer (step t s))
           @ filter (\<lambda>f. f \<noteq> []) (adds (claude_thread (step t s)))
       = tts_received s @ queue (text_buffer s) @ filter (\<lambda>f. f \<noteq> []) (adds (claude_thread s))"
proof (cases t)
  case Claude
  show ?thesis
  proof (cases "claude_thread s")
    case Nil
    then show ?thesis by (simp add: Claude step_Claude_Nil)
  next
    case (Cons c cs)
    show ?thesis
      using exec_op_fragments[of c s] exec_op_not_returned_adds[of c s] adds_Cons[of c cs]
      by (simp add: Claude step_Claude_Cons[OF Cons] Cons)
  qed
next
  case Fish
  show ?thesis
  proof (cases "fish_thread s")
    case Nil
    then show ?thesis by (simp add: Fish step_Fish_Nil)
  next
    case (Cons c cs)
    have "adds [c] = []"
      using assms adds_Cons[of c cs] by (simp add: Cons)
    then show ?thesis
      using exec_op_fragments[of c s]
      by (simp add: Fish step_Fish_Cons[OF Cons] exec_op_threads)
  qed
next
  case Relay
  show ?thesis by (simp add: Relay step_Relay_others)
qed

lemma fragments_run:
  assumes "adds (fish_thread s) = []"
  shows "tts_received (run ts s) @ queue (text_buffer (run ts s))
           @ filter (\<lambda>f. f \<noteq> []) (adds (claude_thread (run ts s)))
       = tts_received s @ queue (text_buffer s) @ filter (\<lambda>f. f \<noteq> []) (adds (claude_thread s))"
proof -
  let ?I = "\<lambda>s'::session. adds (fish_thread s') = []
      \<and> tts_received s' @ queue (text_buffer s') @ filter (\<lambda>f. f \<noteq> []) (adds (claude_thread s'))
        = tts_received s @ queue (text_buffer s) @ filter (\<lambda>f. f \<noteq> []) (adds (claude_thread s))"
  have "?I (run ts s)"
  proof (rule run_invariant)
    show "?I s" using assms by simp
  next
    fix t s'
    assume I: "?I s'"
    have "set (adds (fish_thread (step t s'))) \<subseteq> set (adds (fish_thread s'))"
      using set_fish_thread_step[of t s'] by (auto simp: set_adds)
    then have "adds (fish_thread (step t s')) = []" using I by simp
    then show "?I (step t s')"
      using I fragments_step[of s' t] by simp
  qed
  then show ?thesis by simp
qed

text \<open>The buffer, once closed, stays closed; \<open>stream_claude\<close> always closes it.\<close>

lemma exec_op_done_flag:
  "done_flag (text_buffer (fst (exec_op c s))) = (done_flag (text_buffer s) \<or> c = Finish)"
proof (cases c)
  case Next
  show ?thesis
    unfolding Next
    by (cases "text_iter s") (simp_all add: exec_op.simps split: list.splits)
qed (simp_all add: exec_op.simps add_def finish_def)

lemma closes_step: "closes s \<Longrightarrow> closes (step t s)"
proof (cases t)
  case Claude
  assume a: "closes s"
  show ?thesis
  proof (cases "claude_thread s")
    case Nil
    with a show ?thesis by (simp add: Claude step_Claude_Nil)
  next
    case (Cons c cs)
    show ?thesis
      using a unfolding closes_def
      by (auto simp: Claude step_Claude_Cons[OF Cons] Cons exec_op_done_flag)
  qed
next
  case Fish
  assume a: "closes s"
  show ?thesis
  proof (cases "fish_thread s")
    case Nil
    with a show ?thesis by (simp add: Fish step_Fish_Nil)
  next
    case (Cons c cs)
    show ?thesis
      using a unfolding closes_def
      by (auto simp: Fish step_Fish_Cons[OF Cons] exec_op_done_flag exec_op_threads)
  qed
next
  case Relay
  assume "closes s"
  then show ?thesis by (simp add: Relay closes_def step_Relay_others)
qed

lemma closes_run: "closes s \<Longrightarrow> closes (run ts s)"
  by (rule run_invariant) (simp_all add: closes_step)

lemma closes_init: "closes (init_session fs oc tts toc)"
  by (simp add: closes_def init_session_def Finish_in_stream_claude)

text \<open>\<open>stream_claude\<close> never waits: each pick of its thread completes one call.\<close>

lemma claude_progress:
  "Next \<notin> set (claude_thread s) \<Longrightarrow>
   length (claude_thread (run ts s)) = length (claude_thread s) - picks Claude ts"
proof (induction ts arbitrary: s)
  case Nil
  then show ?case by (simp add: run_Nil picks_def)
next
  case (Cons t ts)
  have sub: "Next \<notin> set (claude_thread (step t s))"
    using Cons.prems set_claude_thread_step[of t s] by blast
  have len: "length (claude_thread (step t s)) = length (claude_thread s) - (if t = Claude then 1 else 0)"
  proof (cases t)
    case Claude
    show ?thesis
    proof (cases "claude_thread s")
      case Nil
      then show ?thesis by (simp add: Claude step_Claude_Nil)
    next
      case (Cons c cs)
      then have "c \<noteq> Next" using Cons.prems \<open>Next \<notin> set (claude_thread s)\<close> by auto
      then show ?thesis
        by (simp add: Claude step_Claude_Cons[OF Cons] exec_op_returns Cons)
    qed
  qed (simp_all add: step_Fish_others step_Relay_others)
  show ?case
    using Cons.IH[OF sub] len by (simp add: run_Cons picks_def)
qed

text \<open>On a closed buffer the iterator ends, from each of its control points.\<close>

lemma iterate_closed_ends: "done_flag b \<Longrightarrow> \<exists>ys. iterate g b = Some ys"
proof (cases g)
  case G_while
  assume "done_flag b"
  then show ?thesis by (simp add: G_while iterate_closed)
next
  case G_get
  assume d: "done_flag b"
  show ?thesis
  proof (cases "queue b")
    case Nil
    have "iterate G_except b = Some []"
      using d by (subst iterate.simps) (simp add: iterate_finished)
    then have "iterate G_get b = Some []"
      by (subst iterate.simps) (simp add: Nil)
    then show ?thesis by (simp add: G_get)
  next
    case (Cons x xs)
    have "iterate G_while (b\<lparr>queue := xs\<rparr>) = Some xs"
      using iterate_closed[of "b\<lparr>queue := xs\<rparr>"] d by simp
    then have "iterate G_get b = Some (x # xs)"
      by (subst iterate.simps) (simp add: Cons)
    then show ?thesis by (simp add: G_get)
  qed
next
  case G_except
  assume d: "done_flag b"
  have "iterate G_except b = Some []"
    using d by (subst iterate.simps) (simp add: iterate_finished)
  then show ?thesis by (simp add: G_except)
next
  case G_finished
  then show ?thesis by (simp add: iterate_finished)
qed

text \<open>The kinds of the lines of each producer.\<close>

lemma error_lines_differ: "line (tts_error_event e) \<noteq> line (claude_error_event e)"
proof
  assume "line (tts_error_event e) = line (claude_error_event e)"
  then have "json_loads (line (tts_error_event e)) = json_loads (line (claude_error_event e))"
    by simp
  then have "tts_error_event e = claude_error_event e"
    by (simp only: loads_line option.inject)
  then have "length (''TTS Error: '' @ e) = length e"
    by (simp add: tts_error_event_def claude_error_event_def)
  then show False by simp
qed

lemma filter_text_stream_claude:
  "filter is_text_line (puts (stream_claude fs oc)) = map (\<lambda>f. line (text_event f)) fs"
  by (induction fs oc rule: stream_claude.induct)
     (simp_all add: is_text_line_def chunk_type_lines)

lemma no_text_stream_fish_tts:
  "\<forall>l \<in> set (puts (stream_fish_tts tts toc)). \<not> is_text_line l"
  by (induction tts toc rule: stream_fish_tts.induct)
     (simp_all add: is_text_line_def chunk_type_lines)

lemma filter_error_stream_claude:
  "filter is_error_line (puts (stream_claude fs oc)) =
     (case oc of Completed \<Rightarrow> [] | Raised e \<Rightarrow> [line (claude_error_event e)])"
  by (induction fs oc rule: stream_claude.induct)
     (simp_all add: is_error_line_def chunk_type_lines)

lemma filter_done_stream_fish_tts:
  "filter chunk_is_done (puts (stream_fish_tts tts toc)) =
     (case toc of Completed \<Rightarrow> [line done_event] | Raised e \<Rightarrow> [])"
  by (induction tts toc rule: stream_fish_tts.induct)
     (simp_all add: chunk_is_done_lines)

lemma no_done_stream_claude:
  "\<forall>l \<in> set (puts (stream_claude fs oc)). \<not> chunk_is_done l"
  by (induction fs oc rule: stream_claude.induct)
     (simp_all add: chunk_is_done_lines)

subsection \<open>Facts about the relay\<close>

lemma stopped_step:
  assumes "relay s = R_stopped"
  shows "relay (step t s) = R_stopped \<and> yielded (step t s) = yielded s
       \<and> (\<exists>later. audio_queue (step t s) = audio_queue s @ later)"
proof (cases t)
  case Claude
  have "\<exists>later. audio_queue (step Claude s) = audio_queue s @ later"
  proof (cases "claude_thread s")
    case Nil
    then show ?thesis by (simp add: step_Claude_Nil)
  next
    case (Cons c cs)
    then show ?thesis by (simp add: step_Claude_Cons[OF Cons] exec_op_audio_queue)
  qed
  then show ?thesis using assms by (simp add: Claude step_Claude_others)
next
  case Fish
  have "\<exists>later. audio_queue (step Fish s) = audio_queue s @ later"
  proof (cases "fish_thread s")
    case Nil
    then show ?thesis by (simp add: step_Fish_Nil)
  next
    case (Cons c cs)
    then show ?thesis by (simp add: step_Fish_Cons[OF Cons] exec_op_audio_queue)
  qed
  then show ?thesis using assms by (simp add: Fish step_Fish_others)
next
  case Relay
  show ?thesis using assms by (simp add: Relay step_Relay relay_step_def)
qed

lemma stopped_run:
  assumes "relay s = R_stopped"
  shows "relay (run ts s) = R_stopped \<and> yielded (run ts s) = yielded s
       \<and> (\<exists>later. audio_queue (run ts s) = audio_queue s @ later)"
proof -
  let ?I = "\<lambda>s'::session. relay s' = R_stopped \<and> yielded s' = yielded s
       \<and> (\<exists>later. audio_queue s' = audio_queue s @ later)"
  have "?I (run ts s)"
  proof (rule run_invariant)
    show "?I s" using assms by simp
  next
    fix t s'
    assume I: "?I s'"
    then obtain later where l: "audio_queue s' = audio_queue s @ later" by blast
    from I have "relay s' = R_stopped" by simp
    from stopped_step[OF this, of t] obtain later' where
      "relay (step t s') = R_stopped" "yielded (step t s') = yielded s'"
      "audio_queue (step t s') = audio_queue s' @ later'" by blast
    then show "?I (step t s')" using I l by simp
  qed
  then show ?thesis by simp
qed

lemma handler_inv_step: "handler_inv s \<Longrightarrow> handler_inv (step t s)"
proof (cases t)
  case Claude
  assume a: "handler_inv s"
  have "claude_thread s = [] \<Longrightarrow> claude_thread (step Claude s) = []"
    by (simp add: step_Claude_Nil)
  then show ?thesis
    using a by (auto simp: handler_inv_def Claude step_Claude_others)
next
  case Fish
  assume a: "handler_inv s"
  have "fish_thread s = [] \<Longrightarrow> fish_thread (step Fish s) = []"
    by (simp add: step_Fish_Nil)
  then show ?thesis
    using a by (auto simp: handler_inv_def Fish step_Fish_others)
next
  case Relay
  assume "handler_inv s"
  then show ?thesis
    by (auto simp: handler_inv_def Relay step_Relay relay_step_def
        split: relay_pc.splits list.splits if_splits)
qed

lemma handler_inv_run: "handler_inv s \<Longrightarrow> handler_inv (run ts s)"
  by (rule run_invariant) (simp_all add: handler_inv_step)

lemma handler_inv_init: "handler_inv (init_session fs oc tts toc)"
  by (simp add: handler_inv_def init_session_def)

lemma on_timeout_decides:
  assumes "relay s = R_empty"
  shows "relay (on_timeout s) =
           (if claude_thread s = [] \<and> fish_thread s = [] \<and> audio_queue s = [] then R_stopped else R_get)
       \<and> yielded (on_timeout s) = yielded s \<and> audio_queue (on_timeout s) = audio_queue s"
  using assms by (simp add: on_timeout_def Let_def step_Relay relay_step_def)

lemma relay_left_step:
  assumes "claude_thread s = []" "fish_thread s = []"
  shows "relay_left (step t s) \<le> relay_left s - (if t = Relay then 1 else 0)"
proof (cases t)
  case Relay
  show ?thesis
    unfolding Relay
    by (cases "relay s")
       (auto simp: relay_left_def step_Relay relay_step_def assms split: list.splits)
qed (simp_all add: assms step_Claude_Nil step_Fish_Nil)

lemma ended_step:
  assumes "claude_thread s = []" "fish_thread s = []"
  shows "claude_thread (step t s) = [] \<and> fish_thread (step t s) = []"
  by (cases t) (simp_all add: assms step_Claude_Nil step_Fish_Nil step_Relay_others)

lemma relay_left_run:
  assumes "claude_thread s = []" "fish_thread s = []"
  shows "relay_left (run ts s) \<le> relay_left s - picks Relay ts"
  using assms
proof (induction ts arbitrary: s)
  case Nil
  then show ?case by (simp add: run_Nil picks_def)
next
  case (Cons t ts)
  have e: "claude_thread (step t s) = []" "fish_thread (step t s) = []"
    using ended_step[OF Cons.prems] by simp_all
  have "relay_left (run ts (step t s)) \<le> relay_left (step t s) - picks Relay ts"
    by (rule Cons.IH[OF e])
  moreover have "relay_left (step t s) \<le> relay_left s - (if t = Relay then 1 else 0)"
    by (rule relay_left_step[OF Cons.prems])
  ultimately have "relay_left (run ts (step t s))
      \<le> relay_left s - ((if t = Relay then 1 else 0) + picks Relay ts)"
    by linarith
  then show ?case
    by (cases "t = Relay") (simp_all add: run_Cons picks_def)
qed

lemma relay_left_bound: "relay_left s \<le> length (audio_queue s) + 7"
  by (cases "relay s") (simp_all add: relay_left_def)

lemma relay_left_0: "relay_left s = 0 \<longleftrightarrow> relay s = R_stopped"
  by (cases "relay s") (simp_all add: relay_left_def)

lemma relay_stops_when_ended:
  assumes "claude_thread s = []" "fish_thread s = []"
    and "length (audio_queue s) + 7 \<le> picks Relay ts"
  shows "relay (run ts s) = R_stopped"
proof -
  have "relay_left (run ts s) \<le> relay_left s - picks Relay ts"
    by (rule relay_left_run[OF assms(1,2)])
  then have "relay_left (run ts s) = 0"
    using relay_left_bound[of s] assms(3) by simp
  then show ?thesis by (simp add: relay_left_0)
qed

subsection \<open>Facts about the done line\<close>

text \<open>The mirror image of \<open>claude_lines_step\<close>, for the lines only \<open>stream_fish_tts\<close> puts.\<close>

lemma fish_lines_step:
  assumes "\<forall>l \<in> set (puts (claude_thread s)). \<not> P l"
  shows "filter P (yielded (step t s) @ audio_queue (step t s)) @ filter P (puts (fish_thread (step t s)))
       = filter P (yielded s @ audio_queue s) @ filter P (puts (fish_thread s))"
proof (cases t)
  case Fish
  have "filter P (audio_queue (step Fish s) @ puts (fish_thread (step Fish s)))
      = filter P (audio_queue s @ puts (fish_thread s))"
    by (simp only: step_Fish_lines)
  then show ?thesis unfolding Fish by (simp add: step_Fish_others)
next
  case Claude
  have eq: "filter P (audio_queue (step Claude s) @ puts (claude_thread (step Claude s)))
      = filter P (audio_queue s @ puts (claude_thread s))"
    by (simp only: step_Claude_lines)
  have "set (puts (claude_thread (step Claude s))) \<subseteq> set (puts (claude_thread s))"
    using set_claude_thread_step[of Claude s] by (auto simp: set_puts)
  then have "filter P (puts (claude_thread (step Claude s))) = []"
    using assms by (auto simp: filter_empty_conv)
  moreover have "filter P (puts (claude_thread s)) = []"
    using assms by (auto simp: filter_empty_conv)
  ultimately have "filter P (audio_queue (step Claude s)) = filter P (audio_queue s)"
    using eq by simp
  then show ?thesis unfolding Claude by (simp add: step_Claude_others)
next
  case Relay
  have "filter P (yielded (step Relay s) @ audio_queue (step Relay s))
      = filter P (yielded s @ audio_queue s)"
    by (simp only: step_Relay_lines)
  then show ?thesis unfolding Relay by (simp add: step_Relay_others)
qed

lemma fish_lines_run:
  assumes "\<forall>l \<in> set (puts (claude_thread s)). \<not> P l"
  shows "filter P (yielded (run ts s) @ audio_queue (run ts s)) @ filter P (puts (fish_thread (run ts s)))
       = filter P (yielded s @ audio_queue s) @ filter P (puts (fish_thread s))"
proof -
  let ?I = "\<lambda>s'::session. (\<forall>l \<in> set (puts (claude_thread s')). \<not> P l)
      \<and> filter P (yielded s' @ audio_queue s') @ filter P (puts (fish_thread s'))
        = filter P (yielded s @ audio_queue s) @ filter P (puts (fish_thread s))"
  have "?I (run ts s)"
  proof (rule run_invariant)
    show "?I s" using assms by simp
  next
    fix t s'
    assume I: "?I s'"
    have "set (puts (claude_thread (step t s'))) \<subseteq> set (puts (claude_thread s'))"
      using set_claude_thread_step[of t s'] by (auto simp: set_puts)
    then show "?I (step t s')"
      using I fish_lines_step[of s' P t] by auto
  qed
  then show ?thesis by simp
qed

text \<open>
  When the speech session ends normally there is one done line in the whole session:
  yielded, queued, or still to be put by \<open>stream_fish_tts\<close>.
\<close>

lemma one_done_line:
  assumes "s = run ts (init_session fs oc tts Completed)"
  shows "filter chunk_is_done (yielded s @ audio_queue s) @ filter chunk_is_done (puts (fish_thread s))
       = [line done_event]"
proof -
  let ?i = "init_session fs oc tts Completed"
  have "\<forall>l \<in> set (puts (claude_thread ?i)). \<not> chunk_is_done l"
    by (simp add: init_session_def no_done_stream_claude)
  from fish_lines_run[OF this, of ts] show ?thesis
    unfolding assms by (simp add: init_session_def filter_done_stream_fish_tts)
qed

lemma stream_fish_tts_not_Nil: "stream_fish_tts tts toc \<noteq> []"
  by (induction tts toc rule: stream_fish_tts.induct) simp_all

lemma last_stream_fish_tts:
  "last (stream_fish_tts tts Completed) = Put (line done_event)"
  by (induction tts "Completed" rule: stream_fish_tts.induct)
     (simp_all add: stream_fish_tts_not_Nil)

lemma last_fish_thread_step:
  assumes "fish_thread s \<noteq> [] \<longrightarrow> last (fish_thread s) = c"
  shows "fish_thread (step t s) \<noteq> [] \<longrightarrow> last (fish_thread (step t s)) = c"
proof (cases t)
  case Fish
  obtain pre where "fish_thread s = pre @ fish_thread (step Fish s)"
    using step_Fish_suffix by blast
  then show ?thesis
    using assms unfolding Fish by (metis last_appendR append_is_Nil_conv)
qed (simp_all add: assms step_Claude_others step_Relay_others)

lemma last_fish_thread:
  assumes "s = run ts (init_session fs oc tts Completed)"
  shows "fish_thread s \<noteq> [] \<longrightarrow> last (fish_thread s) = Put (line done_event)"
  unfolding assms
  by (rule run_invariant) (simp_all add: last_fish_thread_step init_session_def last_stream_fish_tts)

lemma done_pending_while_alive:
  assumes "s = run ts (init_session fs oc tts Completed)" and "fish_thread s \<noteq> []"
  shows "\<forall>l \<in> set (yielded s @ audio_queue s). \<not> chunk_is_done l"
proof -
  have "last (fish_thread s) = Put (line done_event)"
    using last_fish_thread[OF assms(1)] assms(2) by simp
  then have "Put (line done_event) \<in> set (fish_thread s)"
    using assms(2) last_in_set by metis
  then have "line done_event \<in> set (puts (fish_thread s))"
    by (simp add: set_puts)
  then have "filter chunk_is_done (puts (fish_thread s)) \<noteq> []"
    using chunk_is_done_lines(3) by (auto simp: filter_empty_conv)
  then have "filter chunk_is_done (yielded s @ audio_queue s) = []"
    using one_done_line[OF assms(1)]
    by (metis append_eq_Cons_conv append_is_Nil_conv)
  then show ?thesis by (auto simp: filter_empty_conv)
qed

lemma no_done_yielded_step:
  assumes "relay s \<noteq> R_stopped \<longrightarrow> (\<forall>l \<in> set (yielded s). \<not> chunk_is_done l)"
  shows "relay (step t s) \<noteq> R_stopped \<longrightarrow> (\<forall>l \<in> set (yielded (step t s)). \<not> chunk_is_done l)"
proof (cases t)
  case Relay
  show ?thesis
    using assms unfolding Relay
    by (cases "relay s") (auto simp: step_Relay relay_step_def split: list.splits if_splits)
qed (simp_all add: assms step_Claude_others step_Fish_others)

lemma no_done_yielded:
  "relay (run ts (init_session fs oc tts toc)) \<noteq> R_stopped \<longrightarrow>
     (\<forall>l \<in> set (yielded (run ts (init_session fs oc tts toc))). \<not> chunk_is_done l)"
  by (rule run_invariant) (simp_all add: no_done_yielded_step init_session_def)

text \<open>When the speech session ends normally, a stopped relay has yielded the done line last.\<close>

lemma stopped_after_done:
  "relay (run ts (init_session fs oc tts Completed)) = R_stopped \<Longrightarrow>
     yielded (run ts (init_session fs oc tts Completed)) \<noteq> []
     \<and> last (yielded (run ts (init_session fs oc tts Completed))) = line done_event"
proof (induction ts rule: rev_induct)
  case Nil
  then show ?case by (simp add: run_Nil init_session_def)
next
  case (snoc t ts)
  let ?s = "run ts (init_session fs oc tts Completed)"
  have s': "run (ts @ [t]) (init_session fs oc tts Completed) = step t ?s"
    by (simp add: run_snoc)
  show ?case
  proof (cases "relay ?s = R_stopped")
    case True
    then show ?thesis
      using snoc.IH stopped_step[OF True, of t] by (simp add: s')
  next
    case False
    have nd: "\<forall>l \<in> set (yielded ?s). \<not> chunk_is_done l"
      using no_done_yielded[of ts fs oc tts Completed] False by simp
    have one: "filter chunk_is_done (yielded ?s @ audio_queue ?s)
                 @ filter chunk_is_done (puts (fish_thread ?s)) = [line done_event]"
      by (rule one_done_line) simp
    have hi: "handler_inv ?s"
      by (rule handler_inv_run) (rule handler_inv_init)
    have stop: "relay (step t ?s) = R_stopped"
      using snoc.prems by (simp add: s')
    then have t: "t = Relay"
      using False by (cases t) (simp_all add: step_Claude_others step_Fish_others)
    show ?thesis
    proof (cases "relay ?s")
      case R_get
      show ?thesis
      proof (cases "audio_queue ?s")
        case Nil
        then show ?thesis using stop R_get by (simp add: t step_Relay relay_step_def)
      next
        case (Cons c cs)
        have d: "chunk_is_done c"
          using stop R_get Cons by (simp add: t step_Relay relay_step_def split: if_splits)
        have "filter chunk_is_done (yielded ?s) = []"
          using nd by (simp add: filter_empty_conv)
        then have "c = line done_event"
          using one d by (simp add: Cons)
        then show ?thesis
          using R_get Cons by (simp add: run_snoc t step_Relay relay_step_def)
      qed
    next
      case R_queue_empty
      then have dead: "fish_thread ?s = []"
        using hi by (simp add: handler_inv_def)
      have "audio_queue ?s = []"
        using stop R_queue_empty by (simp add: t step_Relay relay_step_def split: if_splits)
      then have "filter chunk_is_done (yielded ?s) = [line done_event]"
        using one dead by simp
      then show ?thesis
        using nd by (simp add: filter_empty_conv)
    qed (use stop False in \<open>simp_all add: t step_Relay relay_step_def split: if_splits\<close>)
  qed
qed

text \<open>When the speech session raises, no line of the session has the type \<open>done\<close>.\<close>

lemma no_done_when_raised:
  "l \<in> lines_of (run ts (init_session fs oc tts (Raised e))) \<Longrightarrow> \<not> chunk_is_done l"
proof -
  assume "l \<in> lines_of (run ts (init_session fs oc tts (Raised e)))"
  then have "l \<in> set (puts (stream_claude fs oc)) \<union> set (puts (stream_fish_tts tts (Raised e)))"
    by (simp only: lines_of_run lines_of_init)
  moreover have "filter chunk_is_done (puts (stream_fish_tts tts (Raised e))) = []"
    by (simp add: filter_done_stream_fish_tts)
  ultimately show ?thesis
    using no_done_stream_claude[of fs oc] by (auto simp: filter_empty_conv)
qed

subsection \<open>Facts about termination\<close>

lemma done_flag_step: "done_flag (text_buffer s) \<Longrightarrow> done_flag (text_buffer (step t s))"
proof (cases t)
  case Claude
  assume "done_flag (text_buffer s)"
  then show ?thesis
    by (cases "claude_thread s")
       (simp_all add: Claude step_Claude_Nil step_Claude_Cons exec_op_done_flag)
next
  case Fish
  assume "done_flag (text_buffer s)"
  then show ?thesis
    by (cases "fish_thread s")
       (simp_all add: Fish step_Fish_Nil step_Fish_Cons exec_op_done_flag)
next
  case Relay
  assume "done_flag (text_buffer s)"
  then show ?thesis by (simp add: Relay step_Relay_others)
qed

lemma length_fish_thread_step: "length (fish_thread (step t s)) \<le> length (fish_thread s)"
proof (cases t)
  case Fish
  obtain pre where "fish_thread s = pre @ fish_thread (step Fish s)"
    using step_Fish_suffix by blast
  then have "length (fish_thread s) = length pre + length (fish_thread (step Fish s))"
    by (metis length_append)
  then show ?thesis unfolding Fish by simp
qed (simp_all add: step_Claude_others step_Relay_others)

lemma length_fish_thread_run: "length (fish_thread (run ts s)) \<le> length (fish_thread s)"
proof (induction ts arbitrary: s)
  case Nil
  then show ?case by (simp add: run_Nil)
next
  case (Cons t ts)
  show ?case
    using Cons.IH[of "step t s"] length_fish_thread_step[of t s] by (simp add: run_Cons)
qed

lemma pending_step: "pending (step t s) \<le> pending s"
proof (cases t)
  case Claude
  have "length (audio_queue (step Claude s) @ puts (claude_thread (step Claude s)))
      = length (audio_queue s @ puts (claude_thread s))"
    by (simp only: step_Claude_lines)
  then show ?thesis
    unfolding Claude pending_def by (simp add: step_Claude_others)
next
  case Fish
  have "length (audio_queue (step Fish s) @ puts (fish_thread (step Fish s)))
      = length (audio_queue s @ puts (fish_thread s))"
    by (simp only: step_Fish_lines)
  then show ?thesis
    unfolding Fish pending_def by (simp add: step_Fish_others)
next
  case Relay
  have "length (audio_queue (step Relay s)) \<le> length (audio_queue s)"
    by (simp add: step_Relay relay_step_def split: relay_pc.splits list.splits)
  then show ?thesis
    unfolding Relay pending_def by (simp add: step_Relay_others)
qed

lemma pending_run: "pending (run ts s) \<le> pending s"
proof (induction ts arbitrary: s)
  case Nil
  then show ?case by (simp add: run_Nil)
next
  case (Cons t ts)
  show ?case
    using Cons.IH[of "step t s"] pending_step[of t s] by (simp add: run_Cons)
qed

lemma next_on_closed:
  assumes "done_flag (text_buffer s)"
  shows "(snd (exec_op Next s) \<and> next_cost s = 1)
       \<or> (\<not> snd (exec_op Next s) \<and> next_cost s = 2 \<and> next_cost (fst (exec_op Next s)) = 1)"
  using assms
  by (cases "text_iter s"; cases "queue (text_buffer s)")
     (simp_all add: exec_op.simps next_cost_def)

lemma fish_left_le: "fish_left s \<le> 2 * length (fish_thread s)"
  by (cases "fish_thread s") (simp_all add: fish_left_def next_cost_def)

lemma fish_left_0: "fish_left s = 0 \<longleftrightarrow> fish_thread s = []"
  by (cases "fish_thread s") (simp_all add: fish_left_def next_cost_def)

lemma next_cost_fish_thread: "next_cost (s\<lparr>fish_thread := cs\<rparr>) = next_cost s"
  by (simp add: next_cost_def)

lemma fish_left_step:
  assumes "done_flag (text_buffer s)" and "claude_thread s = []"
  shows "fish_left (step t s) \<le> fish_left s - (if t = Fish then 1 else 0)"
proof (cases t)
  case Claude
  then show ?thesis by (simp add: assms step_Claude_Nil)
next
  case Relay
  have "next_cost (step Relay s) = next_cost s"
    by (simp add: next_cost_def step_Relay_others)
  then have "fish_left (step Relay s) = fish_left s"
    by (simp add: fish_left_def step_Relay_others split: list.splits)
  then show ?thesis by (simp add: Relay)
next
  case Fish
  show ?thesis
  proof (cases "fish_thread s")
    case Nil
    then show ?thesis by (simp add: Fish step_Fish_Nil fish_left_def)
  next
    case (Cons c cs)
    show ?thesis
    proof (cases "snd (exec_op c s)")
      case True
      have "fish_thread (step Fish s) = cs"
        using True by (simp add: step_Fish_Cons[OF Cons])
      then have "fish_left (step Fish s) \<le> 2 * length cs"
        using fish_left_le[of "step Fish s"] by simp
      moreover have "2 * length cs + 1 \<le> fish_left s"
        by (simp add: fish_left_def Cons next_cost_def)
      ultimately show ?thesis by (simp add: Fish)
    next
      case False
      then have c: "c = Next" using exec_op_returns[of c s] by blast
      have nc: "next_cost s = 2" "next_cost (fst (exec_op Next s)) = 1"
        using next_on_closed[OF assms(1)] False c by auto
      have "fish_left (step Fish s) = 2 * length cs + 1"
        using False c nc
        by (simp add: step_Fish_Cons[OF Cons] fish_left_def next_cost_fish_thread)
      moreover have "fish_left s = 2 * length cs + 2"
        using nc by (simp add: fish_left_def Cons c)
      ultimately show ?thesis by (simp add: Fish)
    qed
  qed
qed

lemma claude_ended_step: "claude_thread s = [] \<Longrightarrow> claude_thread (step t s) = []"
  by (cases t) (simp_all add: step_Claude_Nil step_Fish_others step_Relay_others)

lemma claude_ended_run: "claude_thread s = [] \<Longrightarrow> claude_thread (run ts s) = []"
  by (rule run_invariant) (simp_all add: claude_ended_step)

lemma fish_left_run:
  assumes "done_flag (text_buffer s)" and "claude_thread s = []"
  shows "fish_left (run ts s) \<le> fish_left s - picks Fish ts"
  using assms
proof (induction ts arbitrary: s)
  case Nil
  then show ?case by (simp add: run_Nil picks_def)
next
  case (Cons t ts)
  have "fish_left (run ts (step t s)) \<le> fish_left (step t s) - picks Fish ts"
    using Cons.IH[of "step t s"] Cons.prems done_flag_step claude_ended_step by simp
  moreover have "fish_left (step t s) \<le> fish_left s - (if t = Fish then 1 else 0)"
    by (rule fish_left_step[OF Cons.prems])
  ultimately have "fish_left (run ts (step t s))
      \<le> fish_left s - ((if t = Fish then 1 else 0) + picks Fish ts)"
    by linarith
  then show ?case
    by (cases "t = Fish") (simp_all add: run_Cons picks_def)
qed

text \<open>
  A schedule that gives \<open>stream_claude\<close> its picks, then \<open>stream_fish_tts\<close> its picks,
  then the relay its picks, with any other picks in between, ends with the relay
  stopped.
\<close>

lemma session_ends:
  assumes "Next \<notin> set (claude_thread s)" and "closes s"
    and "length (claude_thread s) \<le> picks Claude a"
    and "2 * length (fish_thread s) \<le> picks Fish b"
    and "pending s + 7 \<le> picks Relay c"
  shows "relay (run (a @ b @ c) s) = R_stopped"
proof -
  let ?s1 = "run a s"
  let ?s2 = "run b ?s1"
  have "length (claude_thread ?s1) = length (claude_thread s) - picks Claude a"
    by (rule claude_progress[OF assms(1)])
  then have c1: "claude_thread ?s1 = []" using assms(3) by simp
  have "closes ?s1" by (rule closes_run[OF assms(2)])
  then have d1: "done_flag (text_buffer ?s1)" using c1 by (simp add: closes_def)
  have "fish_left ?s2 \<le> fish_left ?s1 - picks Fish b"
    by (rule fish_left_run[OF d1 c1])
  moreover have "fish_left ?s1 \<le> 2 * length (fish_thread s)"
    using fish_left_le[of ?s1] length_fish_thread_run[of a s] by simp
  ultimately have "fish_left ?s2 = 0" using assms(4) by simp
  then have f2: "fish_thread ?s2 = []" by (simp add: fish_left_0)
  have c2: "claude_thread ?s2 = []" by (rule claude_ended_run[OF c1])
  have "length (audio_queue ?s2) \<le> pending ?s2" by (simp add: pending_def)
  also have "\<dots> \<le> pending ?s1" by (rule pending_run)
  also have "\<dots> \<le> pending s" by (rule pending_run)
  finally have "length (audio_queue ?s2) + 7 \<le> picks Relay c" using assms(5) by simp
  then have "relay (run c ?s2) = R_stopped"
    by (rule relay_stops_when_ended[OF c2 f2])
  then show ?thesis by (simp add: run_append)
qed

lemma length_stream_fish_tts: "length (stream_fish_tts tts toc) = length tts + 1"
  by (induction tts toc rule: stream_fish_tts.induct) simp_all

lemma length_chunks: "length (chunks tts) \<le> length tts"
  by (induction tts rule: chunks.induct) simp_all

lemma init_session_ends:
  assumes "2 * length fs + 2 \<le> picks Claude a"
    and "2 * length tts + 2 \<le> picks Fish b"
    and "length fs + length tts + 9 \<le> picks Relay c"
  shows "relay (run (a @ b @ c) (init_session fs oc tts toc)) = R_stopped"
proof (rule session_ends)
  let ?i = "init_session fs oc tts toc"
  show "Next \<notin> set (claude_thread ?i)"
    by (simp add: init_session_def Next_notin_stream_claude)
  show "closes ?i" by (rule closes_init)
  show "length (claude_thread ?i) \<le> picks Claude a"
    using assms(1) by (cases oc) (simp_all add: init_session_def length_stream_claude)
  show "2 * length (fish_thread ?i) \<le> picks Fish b"
    using assms(2) by (simp add: init_session_def length_stream_fish_tts)
  have "pending ?i \<le> length fs + length tts + 2"
    using length_chunks[of tts]
    by (cases oc; cases toc)
       (simp_all add: pending_def init_session_def puts_stream_claude puts_stream_fish_tts)
  then show "pending ?i + 7 \<le> picks Relay c" using assms(3) by simp
qed

subsection \<open>Facts about the order of the text lines and the done line\<close>

lemma stream_claude_not_Nil: "stream_claude fs oc \<noteq> []"
  by (induction fs oc rule: stream_claude.induct) simp_all

lemma last_stream_claude: "last (stream_claude fs Completed) = Finish"
  by (induction fs "Completed" rule: stream_claude.induct)
     (simp_all add: stream_claude_not_Nil)

lemma butlast_stream_claude: "Finish \<notin> set (butlast (stream_claude fs Completed))"
  by (induction fs "Completed" rule: stream_claude.induct)
     (simp_all add: stream_claude_not_Nil)

lemma closed_only_at_end_init:
  "closed_only_at_end (init_session fs Completed tts toc)"
  by (simp add: closed_only_at_end_def init_session_def init_buffer_def
      last_stream_claude butlast_stream_claude Finish_notin_stream_fish_tts)

lemma closed_only_at_end_step:
  assumes "closed_only_at_end s"
  shows "closed_only_at_end (step t s)"
proof (cases t)
  case Relay
  show ?thesis
    using assms by (simp add: Relay closed_only_at_end_def step_Relay_others)
next
  case Fish
  show ?thesis
  proof (cases "fish_thread s")
    case Nil
    then show ?thesis using assms by (simp add: Fish step_Fish_Nil)
  next
    case (Cons c cs)
    have c: "c \<noteq> Finish" "Finish \<notin> set cs"
      using assms by (auto simp: closed_only_at_end_def Cons)
    show ?thesis
      using assms c
      by (auto simp: Fish closed_only_at_end_def step_Fish_Cons[OF Cons] exec_op_threads
          exec_op_done_flag Cons)
  qed
next
  case Claude
  show ?thesis
  proof (cases "claude_thread s")
    case Nil
    then show ?thesis using assms by (simp add: Claude step_Claude_Nil)
  next
    case (Cons c cs)
    have o: "\<not> done_flag (text_buffer s)" "last (c # cs) = Finish"
      "Finish \<notin> set (butlast (c # cs))" "Finish \<notin> set (fish_thread s)"
      using assms by (auto simp: closed_only_at_end_def Cons)
    show ?thesis
    proof (cases "snd (exec_op c s)")
      case False
      then have "c = Next" using exec_op_returns[of c s] by blast
      then show ?thesis
        using o False
        by (simp add: Claude closed_only_at_end_def step_Claude_Cons[OF Cons]
            exec_op_threads exec_op_done_flag)
    next
      case True
      show ?thesis
      proof (cases cs)
        case Nil
        then show ?thesis
          using o True
          by (simp add: Claude closed_only_at_end_def step_Claude_Cons[OF Cons] exec_op_threads)
      next
        case (Cons c' cs')
        then have "c \<noteq> Finish" "last cs = Finish" "Finish \<notin> set (butlast cs)"
          using o by auto
        then show ?thesis
          using o True
          by (simp add: Claude closed_only_at_end_def step_Claude_Cons[OF \<open>claude_thread s = c # cs\<close>]
              exec_op_threads exec_op_done_flag Cons)
      qed
    qed
  qed
qed

lemma closed_only_at_end_run:
  "closed_only_at_end (run ts (init_session fs Completed tts toc))"
proof (rule run_invariant)
  show "closed_only_at_end (init_session fs Completed tts toc)"
    by (rule closed_only_at_end_init)
next
  fix t s'
  assume "closed_only_at_end s'"
  then show "closed_only_at_end (step t s')" by (rule closed_only_at_end_step)
qed

lemma exec_op_finished_closed:
  "finished_closed s \<Longrightarrow> finished_closed (fst (exec_op c s))"
proof (cases c)
  case Next
  assume "finished_closed s"
  then show ?thesis
    unfolding Next finished_closed_def
    by (cases "text_iter s") (auto simp: exec_op.simps split: list.splits if_splits)
qed (auto simp: finished_closed_def exec_op.simps add_def finish_def)

lemma finished_closed_step: "finished_closed s \<Longrightarrow> finished_closed (step t s)"
proof (cases t)
  case Claude
  assume a: "finished_closed s"
  show ?thesis
  proof (cases "claude_thread s")
    case Nil
    then show ?thesis using a by (simp add: Claude step_Claude_Nil)
  next
    case (Cons c cs)
    show ?thesis
      using exec_op_finished_closed[OF a, of c]
      by (simp add: Claude step_Claude_Cons[OF Cons] finished_closed_def)
  qed
next
  case Fish
  assume a: "finished_closed s"
  show ?thesis
  proof (cases "fish_thread s")
    case Nil
    then show ?thesis using a by (simp add: Fish step_Fish_Nil)
  next
    case (Cons c cs)
    show ?thesis
      using exec_op_finished_closed[OF a, of c]
      by (simp add: Fish step_Fish_Cons[OF Cons] finished_closed_def)
  qed
next
  case Relay
  assume "finished_closed s"
  then show ?thesis by (simp add: Relay finished_closed_def step_Relay_others)
qed

lemma finished_closed_run: "finished_closed (run ts (init_session fs oc tts toc))"
proof (rule run_invariant)
  show "finished_closed (init_session fs oc tts toc)"
    by (simp add: finished_closed_def init_session_def)
next
  fix t s'
  assume "finished_closed s'"
  then show "finished_closed (step t s')" by (rule finished_closed_step)
qed

lemma exec_op_iter:
  "text_iter s = G_finished \<Longrightarrow> text_iter (fst (exec_op c s)) = G_finished"
  "length (tts_received s) \<le> length (tts_received (fst (exec_op c s)))"
  "c \<noteq> Next \<Longrightarrow> tts_received (fst (exec_op c s)) = tts_received s"
  "c \<noteq> Next \<Longrightarrow> text_iter (fst (exec_op c s)) = text_iter s"
  by (cases c; simp add: exec_op.simps split: prod.splits)+

lemma exec_op_Next_returned:
  "snd (exec_op Next s) \<Longrightarrow>
     text_iter (fst (exec_op Next s)) = G_finished
     \<or> length (tts_received (fst (exec_op Next s))) = Suc (length (tts_received s))"
  by (cases "text_iter s"; cases "queue (text_buffer s)")
     (auto simp: exec_op.simps split: if_splits)

lemma pulls_inv_step: "pulls_inv n s \<Longrightarrow> pulls_inv n (step t s)"
proof (cases t)
  case Relay
  assume "pulls_inv n s"
  then show ?thesis by (simp add: Relay pulls_inv_def step_Relay_others)
next
  case Claude
  assume a: "pulls_inv n s"
  show ?thesis
  proof (cases "claude_thread s")
    case Nil
    then show ?thesis using a by (simp add: Claude step_Claude_Nil)
  next
    case (Cons c cs)
    show ?thesis
      using a exec_op_iter(1,2)[of s c]
      by (auto simp: Claude pulls_inv_def step_Claude_Cons[OF Cons] exec_op_threads)
  qed
next
  case Fish
  assume a: "pulls_inv n s"
  show ?thesis
  proof (cases "fish_thread s")
    case Nil
    then show ?thesis using a by (simp add: Fish step_Fish_Nil)
  next
    case (Cons c cs)
    show ?thesis
    proof (cases "snd (exec_op c s)")
      case False
      then show ?thesis
        using a exec_op_iter(1,2)[of s c]
        by (auto simp: Fish pulls_inv_def step_Fish_Cons[OF Cons] Cons)
    next
      case True
      show ?thesis
      proof (cases "c = Next")
        case False
        then show ?thesis
          using a True exec_op_iter(3,4)[of c s]
          by (auto simp: Fish pulls_inv_def step_Fish_Cons[OF Cons] Cons nexts_def)
      next
        case c: True
        show ?thesis
          using a True exec_op_Next_returned[of s] exec_op_iter(1)[of s Next]
          by (auto simp: Fish pulls_inv_def step_Fish_Cons[OF Cons] Cons nexts_def c)
      qed
    qed
  qed
qed

lemma nexts_stream_fish_tts:
  "nexts (stream_fish_tts tts toc) = length (filter (\<lambda>a. a = Pull) tts)"
  by (induction tts toc rule: stream_fish_tts.induct) (simp_all add: nexts_def)

lemma pulls_inv_run:
  "pulls_inv (length (filter (\<lambda>a. a = Pull) tts)) (run ts (init_session fs oc tts toc))"
proof (rule run_invariant)
  show "pulls_inv (length (filter (\<lambda>a. a = Pull) tts)) (init_session fs oc tts toc)"
    by (simp add: pulls_inv_def init_session_def nexts_stream_fish_tts)
next
  fix t s'
  assume "pulls_inv (length (filter (\<lambda>a. a = Pull) tts)) s'"
  then show "pulls_inv (length (filter (\<lambda>a. a = Pull) tts)) (step t s')"
    by (rule pulls_inv_step)
qed

text \<open>
  A speech session that calls \<open>next\<close> more often than there are non-empty deltas has
  seen the end of the iterator before it ends; on a stream that ends normally
  \<open>stream_claude\<close> has then made all its calls.
\<close>

lemma claude_ends_before_fish:
  assumes "s = run ts (init_session fs Completed tts toc)"
    and "length (filter (\<lambda>f. f \<noteq> []) fs) < length (filter (\<lambda>a. a = Pull) tts)"
    and "fish_thread s = []"
  shows "claude_thread s = []"
proof -
  let ?i = "init_session fs Completed tts toc"
  have "adds (fish_thread ?i) = []"
    by (simp add: init_session_def adds_stream_fish_tts)
  from fragments_run[OF this, of ts]
  have "tts_received s @ queue (text_buffer s) @ filter (\<lambda>f. f \<noteq> []) (adds (claude_thread s))
      = filter (\<lambda>f. f \<noteq> []) fs"
    unfolding assms(1) by (simp add: init_session_def init_buffer_def adds_stream_claude)
  then have "length (tts_received s) + length (queue (text_buffer s))
      + length (filter (\<lambda>f. f \<noteq> []) (adds (claude_thread s))) = length (filter (\<lambda>f. f \<noteq> []) fs)"
    by (metis length_append add.assoc)
  then have le: "length (tts_received s) \<le> length (filter (\<lambda>f. f \<noteq> []) fs)"
    by simp
  have "pulls_inv (length (filter (\<lambda>a. a = Pull) tts)) s"
    unfolding assms(1) by (rule pulls_inv_run)
  then have "text_iter s = G_finished"
    using le assms(2,3) by (simp add: pulls_inv_def nexts_def)
  moreover have "finished_closed s"
    unfolding assms(1) by (rule finished_closed_run)
  ultimately have "done_flag (text_buffer s)" by (simp add: finished_closed_def)
  moreover have "closed_only_at_end s"
    unfolding assms(1) by (rule closed_only_at_end_run)
  ultimately show ?thesis by (auto simp: closed_only_at_end_def)
qed

lemma two_done_lines:
  assumes "chunk_is_done c" and "cs \<noteq> []" and "chunk_is_done (last cs)"
  shows "2 \<le> length (filter chunk_is_done (ys @ c # cs))"
proof -
  have "cs = butlast cs @ [last cs]" using assms(2) by simp
  then have "filter chunk_is_done cs = filter chunk_is_done (butlast cs) @ [last cs]"
    using assms(3) by (metis filter.simps(1,2) filter_append)
  then have "1 \<le> length (filter chunk_is_done cs)" by simp
  then show ?thesis using assms(1) by simp
qed

lemma done_last_run:
  assumes "length (filter (\<lambda>f. f \<noteq> []) fs) < length (filter (\<lambda>a. a = Pull) tts)"
  shows "done_last (run ts (init_session fs Completed tts Completed))"
proof (induction ts rule: rev_induct)
  case Nil
  show ?case
    by (simp add: run_Nil done_last_def init_session_def stream_fish_tts_not_Nil)
next
  case (snoc t ts)
  let ?i = "init_session fs Completed tts Completed"
  let ?s = "run ts ?i"
  have s': "run (ts @ [t]) ?i = step t ?s" by (simp add: run_snoc)
  show ?case
  proof (cases "fish_thread ?s = []")
    case True
    have cd: "claude_thread ?s = []"
      by (rule claude_ends_before_fish[OF refl assms True])
    have ih: "(relay ?s = R_stopped \<longrightarrow> audio_queue ?s = [])
        \<and> (relay ?s \<noteq> R_stopped \<longrightarrow> audio_queue ?s \<noteq> [] \<and> chunk_is_done (last (audio_queue ?s)))"
      using snoc.IH True by (simp add: done_last_def)
    show ?thesis
    proof (cases t)
      case Claude
      then show ?thesis using snoc.IH cd by (simp add: run_snoc step_Claude_Nil)
    next
      case Fish
      then show ?thesis using snoc.IH True by (simp add: run_snoc step_Fish_Nil)
    next
      case Relay
      have one: "length (filter chunk_is_done (yielded ?s @ audio_queue ?s)) = 1"
        using one_done_line[OF refl, of ts fs Completed tts] True by simp
      show ?thesis
      proof (cases "relay ?s")
        case R_stopped
        then show ?thesis
          using snoc.IH by (simp add: run_snoc Relay step_Relay relay_step_def)
      next
        case R_get
        then obtain c cs where q: "audio_queue ?s = c # cs" and l: "chunk_is_done (last (c # cs))"
          using ih by (cases "audio_queue ?s") auto
        show ?thesis
        proof (cases "chunk_is_done c")
          case d: True
          have "cs = []"
          proof (rule ccontr)
            assume n: "cs \<noteq> []"
            then have "chunk_is_done (last cs)" using l by simp
            from two_done_lines[OF d n this, of "yielded ?s"] one
            show False by (simp add: q)
          qed
          then show ?thesis
            using R_get q d True
            by (simp add: run_snoc Relay step_Relay relay_step_def done_last_def)
        next
          case nd: False
          then have "cs \<noteq> []" using l by auto
          then show ?thesis
            using R_get q nd l True
            by (simp add: run_snoc Relay step_Relay relay_step_def done_last_def)
        qed
      next
        case R_empty
        then show ?thesis
          using ih True by (simp add: run_snoc Relay step_Relay relay_step_def done_last_def)
      next
        case R_fish_alive
        then show ?thesis
          using ih True by (simp add: run_snoc Relay step_Relay relay_step_def done_last_def)
      next
        case R_queue_empty
        then show ?thesis
          using ih True by (simp add: run_snoc Relay step_Relay relay_step_def done_last_def)
      qed
    qed
  next
    case False
    have ns: "relay ?s \<noteq> R_stopped"
    proof
      assume st: "relay ?s = R_stopped"
      from stopped_after_done[OF st]
      have "line done_event \<in> set (yielded ?s)" by (metis last_in_set)
      then show False
        using done_pending_while_alive[OF refl False] chunk_is_done_lines(3) by auto
    qed
    show ?thesis
    proof (cases "fish_thread (step t ?s) = []")
      case alive: False
      then show ?thesis by (simp add: run_snoc done_last_def)
    next
      case True
      then have t: "t = Fish"
        using False by (cases t) (simp_all add: step_Claude_others step_Relay_others)
      obtain c cs where th: "fish_thread ?s = c # cs"
        using False by (cases "fish_thread ?s") auto
      have ret: "snd (exec_op c ?s)" and cs: "cs = []"
        using True by (auto simp: t step_Fish_Cons[OF th] split: if_splits)
      have "c = Put (line done_event)"
        using last_fish_thread[OF refl, of ts fs Completed tts] th cs by simp
      then have "audio_queue (step t ?s) = audio_queue ?s @ [line done_event]"
        using ret by (simp add: t step_Fish_Cons[OF th] exec_op_audio_queue)
      moreover have "relay (step t ?s) = relay ?s"
        by (simp add: t step_Fish_others)
      ultimately show ?thesis
        using ns by (simp add: run_snoc done_last_def chunk_is_done_lines)
    qed
  qed
qed

lemma partition_shuffles:
  "\<forall>x \<in> set ys. P x \<noteq> Q x \<Longrightarrow> ys \<in> shuffles (filter P ys) (filter Q ys)"
proof (induction ys)
  case Nil
  then show ?case by simp
next
  case (Cons y ys)
  then have ih: "ys \<in> shuffles (filter P ys) (filter Q ys)" by simp
  show ?case
  proof (cases "P y")
    case True
    then have "\<not> Q y" using Cons.prems by auto
    then show ?thesis
      using True Cons_in_shuffles_leftI[OF ih, of y] by simp
  next
    case False
    then have "Q y" using Cons.prems by auto
    then show ?thesis
      using False Cons_in_shuffles_rightI[OF ih, of y] by simp
  qed
qed

lemma filter_audio_stream_fish_tts:
  "filter is_audio_line (puts (stream_fish_tts tts toc)) = map (\<lambda>a. line (audio_event a)) (chunks tts)"
  by (induction tts toc rule: stream_fish_tts.induct)
     (simp_all add: is_audio_line_def chunk_type_lines)

lemma no_audio_stream_claude:
  "\<forall>l \<in> set (puts (stream_claude fs oc)). \<not> is_audio_line l"
  by (induction fs oc rule: stream_claude.induct)
     (simp_all add: is_audio_line_def chunk_type_lines)

text \<open>
  Nothing is lost when both streams end normally and the speech session reads the
  buffer to its end: a stopped relay has yielded an interleaving of all text lines and
  all audio lines, then the done line, and the queue is empty.
\<close>

lemma nothing_lost:
  assumes "s = run ts (init_session fs Completed tts Completed)"
    and "length (filter (\<lambda>f. f \<noteq> []) fs) < length (filter (\<lambda>a. a = Pull) tts)"
    and "relay s = R_stopped"
  shows "\<exists>ys. yielded s = ys @ [line done_event]
           \<and> ys \<in> shuffles (map (\<lambda>f. line (text_event f)) fs)
                           (map (\<lambda>a. line (audio_event a)) (chunks tts))"
    and "audio_queue s = []"
proof -
  let ?i = "init_session fs Completed tts Completed"
  have st: "relay (run ts ?i) = R_stopped" using assms(1,3) by simp
  have y: "yielded s \<noteq> []" "last (yielded s) = line done_event"
    using stopped_after_done[OF st] assms(1) by simp_all
  define ys where "ys = butlast (yielded s)"
  have yd: "yielded s = ys @ [line done_event]"
    using y unfolding ys_def by (metis append_butlast_last_id)
  have fd: "fish_thread s = []"
  proof (rule ccontr)
    assume "fish_thread s \<noteq> []"
    from done_pending_while_alive[OF assms(1) this]
    show False using yd chunk_is_done_lines(3) by auto
  qed
  have cd: "claude_thread s = []"
    by (rule claude_ends_before_fish[OF assms(1,2) fd])
  have "done_last s"
    unfolding assms(1) by (rule done_last_run[OF assms(2)])
  then show q: "audio_queue s = []"
    using fd assms(3) by (simp add: done_last_def)
  have "\<forall>l \<in> set (puts (fish_thread ?i)). \<not> is_text_line l"
    by (simp add: init_session_def no_text_stream_fish_tts)
  from claude_lines_run[OF this, of ts]
  have "filter is_text_line (yielded s) = map (\<lambda>f. line (text_event f)) fs"
    unfolding assms(1)[symmetric] using q cd
    by (simp add: init_session_def filter_text_stream_claude)
  then have T: "filter is_text_line ys = map (\<lambda>f. line (text_event f)) fs"
    by (simp add: yd is_text_line_def chunk_type_lines)
  have "\<forall>l \<in> set (puts (claude_thread ?i)). \<not> is_audio_line l"
    by (simp add: init_session_def no_audio_stream_claude)
  from fish_lines_run[OF this, of ts]
  have "filter is_audio_line (yielded s) = map (\<lambda>a. line (audio_event a)) (chunks tts)"
    unfolding assms(1)[symmetric] using q fd
    by (simp add: init_session_def filter_audio_stream_fish_tts)
  then have A: "filter is_audio_line ys = map (\<lambda>a. line (audio_event a)) (chunks tts)"
    by (simp add: yd is_audio_line_def chunk_type_lines)
  have "filter chunk_is_done (ys @ [line done_event]) = [line done_event]"
    using one_done_line[OF assms(1)] fd q yd by simp
  then have nd: "\<forall>l \<in> set ys. \<not> chunk_is_done l"
    by (simp add: chunk_is_done_lines filter_empty_conv)
  have "\<forall>l \<in> set ys. is_text_line l \<noteq> is_audio_line l"
  proof
    fix l
    assume l: "l \<in> set ys"
    then have "l \<in> lines_of (run ts ?i)"
      using yd assms(1) by (simp add: lines_of_def)
    then have "l \<in> set (puts (stream_claude fs Completed))
        \<union> set (puts (stream_fish_tts tts Completed))"
      by (simp only: lines_of_run lines_of_init)
    then show "is_text_line l \<noteq> is_audio_line l"
      using nd l
      by (auto simp: puts_stream_claude puts_stream_fish_tts is_text_line_def is_audio_line_def
          chunk_type_lines chunk_is_done_lines)
  qed
  from partition_shuffles[OF this]
  have "ys \<in> shuffles (map (\<lambda>f. line (text_event f)) fs)
                     (map (\<lambda>a. line (audio_event a)) (chunks tts))"
    by (simp add: T A)
  then show "\<exists>ys. yielded s = ys @ [line done_event]
           \<and> ys \<in> shuffles (map (\<lambda>f. line (text_event f)) fs)
                           (map (\<lambda>a. line (audio_event a)) (chunks tts))"
    using yd by blast
qed

subsection \<open>Facts about the lines of a failing model stream\<close>

text \<open>
  The lines of a kind are conserved in number: those yielded or queued and those the
  two producers have still to put.
\<close>

lemma count_lines_step:
  "length (filter P (yielded (step t s) @ audio_queue (step t s)))
     + length (filter P (puts (claude_thread (step t s))))
     + length (filter P (puts (fish_thread (step t s))))
   = length (filter P (yielded s @ audio_queue s))
     + length (filter P (puts (claude_thread s)))
     + length (filter P (puts (fish_thread s)))"
proof (cases t)
  case Claude
  have "length (filter P (audio_queue (step Claude s) @ puts (claude_thread (step Claude s))))
      = length (filter P (audio_queue s @ puts (claude_thread s)))"
    by (simp only: step_Claude_lines)
  then show ?thesis unfolding Claude by (simp add: step_Claude_others)
next
  case Fish
  have "length (filter P (audio_queue (step Fish s) @ puts (fish_thread (step Fish s))))
      = length (filter P (audio_queue s @ puts (fish_thread s)))"
    by (simp only: step_Fish_lines)
  then show ?thesis unfolding Fish by (simp add: step_Fish_others)
next
  case Relay
  have "length (filter P (yielded (step Relay s) @ audio_queue (step Relay s)))
      = length (filter P (yielded s @ audio_queue s))"
    by (simp only: step_Relay_lines)
  then show ?thesis unfolding Relay by (simp add: step_Relay_others)
qed

lemma count_lines_run:
  "length (filter P (yielded (run ts s) @ audio_queue (run ts s)))
     + length (filter P (puts (claude_thread (run ts s))))
     + length (filter P (puts (fish_thread (run ts s))))
   = length (filter P (yielded s @ audio_queue s))
     + length (filter P (puts (claude_thread s)))
     + length (filter P (puts (fish_thread s)))"
proof (induction ts arbitrary: s)
  case Nil
  show ?case by (simp add: run_Nil)
next
  case (Cons t ts)
  show ?case
    using Cons.IH[of "step t s"] count_lines_step[of P t s] by (simp add: run_Cons)
qed

lemma filter_error_stream_fish_tts:
  "filter is_error_line (puts (stream_fish_tts tts toc)) =
     (case toc of Completed \<Rightarrow> [] | Raised x \<Rightarrow> [line (tts_error_event x)])"
  by (induction tts toc rule: stream_fish_tts.induct)
     (simp_all add: is_error_line_def chunk_type_lines)

lemma count_error_lines:
  assumes "s = run ts (init_session fs (Raised e) tts toc)"
  shows "length (filter is_error_line (yielded s @ audio_queue s))
           + length (filter is_error_line (puts (claude_thread s)))
           + length (filter is_error_line (puts (fish_thread s)))
       = 1 + (case toc of Completed \<Rightarrow> 0 | Raised x \<Rightarrow> 1)"
  unfolding assms count_lines_run
  by (cases toc)
     (simp_all add: init_session_def filter_error_stream_claude filter_error_stream_fish_tts)

lemma text_or_error_stream_claude:
  "filter (\<lambda>l. is_text_line l \<or> is_error_line l) (puts (stream_claude fs (Raised e)))
     = map (\<lambda>f. line (text_event f)) fs @ [line (claude_error_event e)]"
  by (induction fs "Raised e" rule: stream_claude.induct)
     (simp_all add: is_text_line_def is_error_line_def chunk_type_lines)

lemma no_text_or_error_stream_fish_tts:
  "\<forall>l \<in> set (puts (stream_fish_tts tts Completed)). \<not> (is_text_line l \<or> is_error_line l)"
  by (induction tts "Completed" rule: stream_fish_tts.induct)
     (simp_all add: is_text_line_def is_error_line_def chunk_type_lines)

text \<open>
  When the speech session does not fail itself, the text and error lines yielded or
  queued, followed by those \<open>stream_claude\<close> has still to put, are the text lines of the
  deltas and then the one error line.
\<close>

lemma claude_sequence_on_failure:
  assumes "s = run ts (init_session fs (Raised e) tts Completed)"
  shows "filter (\<lambda>l. is_text_line l \<or> is_error_line l) (yielded s @ audio_queue s)
           @ filter (\<lambda>l. is_text_line l \<or> is_error_line l) (puts (claude_thread s))
       = map (\<lambda>f. line (text_event f)) fs @ [line (claude_error_event e)]"
proof -
  let ?i = "init_session fs (Raised e) tts Completed"
  have "\<forall>l \<in> set (puts (fish_thread ?i)). \<not> (is_text_line l \<or> is_error_line l)"
    using no_text_or_error_stream_fish_tts[of tts] by (simp add: init_session_def)
  from claude_lines_run[OF this, of ts] show ?thesis
    unfolding assms by (simp add: init_session_def text_or_error_stream_claude)
qed

text \<open>
  Once \<open>stream_claude\<close> has had its picks the buffer is closed, and \<open>stream_fish_tts\<close>
  then ends within two picks for each of its calls: no call of \<open>next\<close> waits for ever.
\<close>

lemma fish_ends:
  assumes "Next \<notin> set (claude_thread s)" and "closes s"
    and "length (claude_thread s) \<le> picks Claude a"
    and "2 * length (fish_thread s) \<le> picks Fish b"
  shows "claude_thread (run (a @ b) s) = [] \<and> fish_thread (run (a @ b) s) = []
       \<and> done_flag (text_buffer (run (a @ b) s))"
proof -
  let ?s1 = "run a s"
  let ?s2 = "run b ?s1"
  have "length (claude_thread ?s1) = length (claude_thread s) - picks Claude a"
    by (rule claude_progress[OF assms(1)])
  then have c1: "claude_thread ?s1 = []" using assms(3) by simp
  have "closes ?s1" by (rule closes_run[OF assms(2)])
  then have d1: "done_flag (text_buffer ?s1)" using c1 by (simp add: closes_def)
  have "fish_left ?s2 \<le> fish_left ?s1 - picks Fish b"
    by (rule fish_left_run[OF d1 c1])
  moreover have "fish_left ?s1 \<le> 2 * length (fish_thread s)"
    using fish_left_le[of ?s1] length_fish_thread_run[of a s] by simp
  ultimately have "fish_left ?s2 = 0" using assms(4) by simp
  then have f2: "fish_thread ?s2 = []" by (simp add: fish_left_0)
  have c2: "claude_thread ?s2 = []" by (rule claude_ended_run[OF c1])
  have "done_flag (text_buffer ?s2)"
    by (rule run_invariant[where P = "\<lambda>s'. done_flag (text_buffer s')", OF d1]) (rule done_flag_step)
  then show ?thesis using c2 f2 by (simp add: run_append)
qed

lemma init_fish_ends:
  assumes "2 * length fs + 2 \<le> picks Claude a" and "2 * length tts + 2 \<le> picks Fish b"
  shows "claude_thread (run (a @ b) (init_session fs oc tts toc)) = []
       \<and> fish_thread (run (a @ b) (init_session fs oc tts toc)) = []
       \<and> done_flag (text_buffer (run (a @ b) (init_session fs oc tts toc)))"
proof (rule fish_ends)
  let ?i = "init_session fs oc tts toc"
  show "Next \<notin> set (claude_thread ?i)"
    by (simp add: init_session_def Next_notin_stream_claude)
  show "closes ?i" by (rule closes_init)
  show "length (claude_thread ?i) \<le> picks Claude a"
    using assms(1) by (cases oc) (simp_all add: init_session_def length_stream_claude)
  show "2 * length (fish_thread ?i) \<le> picks Fish b"
    using assms(2) by (simp add: init_session_def length_stream_fish_tts)
qed

section \<open>The claims\<close>

subsection \<open>C1: fragments pushed, then closed, then iterated\<close>

text \<open>
  C1, as the code has it: for every sequence of fragments pushed to the buffer and
  followed by one \<open>finish\<close>, iterating the buffer yields exactly the non-empty
  fragments of the sequence, in push order, and then ends; with no fragment pushed the
  iterator ends at once and yields nothing.
\<close>

theorem iterate_pushed_then_closed:
  "iterate G_while (finish (add_all fs init_buffer)) = Some (filter (\<lambda>f. f \<noteq> []) fs)"
proof -
  let ?b = "finish (add_all fs init_buffer)"
  have "done_flag ?b" by (simp add: finish_def)
  moreover have "queue ?b = filter (\<lambda>f. f \<noteq> []) fs"
    by (simp add: finish_def queue_add_all init_buffer_def)
  ultimately show ?thesis using iterate_closed[of ?b] by simp
qed

theorem iterate_pushed_then_closed_witness:
  "iterate G_while (finish (add_all [''Hello'', '' world''] init_buffer)) = Some [''Hello'', '' world'']
   \<and> iterate G_while (finish (add_all [] init_buffer)) = Some []"
  using iterate_pushed_then_closed[of "[''Hello'', '' world'']"] iterate_pushed_then_closed[of "[]"]
  by simp

text \<open>
  C1 as stated fails when a pushed fragment is empty: of the three fragments
  \<open>"a"\<close>, \<open>""\<close>, \<open>"b"\<close> the iterator yields two.
\<close>

theorem iterate_skips_empty_fragment:
  "iterate G_while (finish (add_all [''a'', [], ''b''] init_buffer)) \<noteq> Some [''a'', [], ''b'']"
proof -
  let ?b = "finish (add_all [''a'', [], ''b''] init_buffer)"
  have "done_flag ?b" by (simp add: finish_def)
  moreover have "queue ?b = [''a'', ''b'']"
    by (simp add: finish_def queue_add_all init_buffer_def)
  ultimately have "iterate G_while ?b = Some [''a'', ''b'']"
    using iterate_closed[of ?b] by simp
  then show ?thesis by simp
qed

subsection \<open>C2: the fragments of the model reach both consumers\<close>




text \<open>
  What the buffer receives is not always read. The handler of \<open>queue.Empty\<close> in
  \<open>__iter__\<close> ends the iterator when it finds the buffer closed, without looking at the
  queue again: a fragment added between the timeout and that test stays in the buffer.
\<close>

lemma late_fragment_unread:
  "tts_received (run [Fish, Fish, Claude, Claude, Claude, Fish, Fish]
       (init_session [''a''] Completed [Pull] Completed)) = []
   \<and> queue (text_buffer (run [Fish, Fish, Claude, Claude, Claude, Fish, Fish]
       (init_session [''a''] Completed [Pull] Completed))) = [''a'']
   \<and> text_iter (run [Fish, Fish, Claude, Claude, Claude, Fish, Fish]
       (init_session [''a''] Completed [Pull] Completed)) = G_finished
   \<and> fish_thread (run [Fish, Fish, Claude, Claude, Claude, Fish, Fish]
       (init_session [''a''] Completed [Pull] Completed)) = []"
  by (simp add: session_eval)

subsection \<open>C3: the end of the outbound stream\<close>

text \<open>
  C3, as the code has it: every execution in which the scheduler gives
  \<open>stream_claude\<close>, then \<open>stream_fish_tts\<close>, then the relay enough picks (with any other
  picks in between) ends with the relay stopped, whether or not a producer fails. When
  the speech session ends normally, also when the stream of the model raises, a stopped
  relay has yielded the done line as its last line. When the speech session raises, no
  line of type \<open>done\<close> is ever queued or yielded: the relay stops on the timeout path.
\<close>

theorem stream_ends_with_or_without_done:
  "(2 * length fs + 2 \<le> picks Claude a \<and> 2 * length tts + 2 \<le> picks Fish b
      \<and> length fs + length tts + 9 \<le> picks Relay c \<longrightarrow>
      relay (run (a @ b @ c) (init_session fs oc tts toc)) = R_stopped)
   \<and> (relay (run ts (init_session fs oc tts Completed)) = R_stopped \<longrightarrow>
        yielded (run ts (init_session fs oc tts Completed)) \<noteq> []
        \<and> last (yielded (run ts (init_session fs oc tts Completed))) = line done_event)
   \<and> (l \<in> set (yielded (run ts (init_session fs oc tts (Raised e))))
             \<union> set (audio_queue (run ts (init_session fs oc tts (Raised e)))) \<longrightarrow>
        \<not> chunk_is_done l)"
proof -
  have "l \<in> set (yielded (run ts (init_session fs oc tts (Raised e))))
             \<union> set (audio_queue (run ts (init_session fs oc tts (Raised e)))) \<longrightarrow>
        l \<in> lines_of (run ts (init_session fs oc tts (Raised e)))"
    by (auto simp: lines_of_def)
  then show ?thesis
    using init_session_ends[of fs a tts b c oc toc] stopped_after_done[of ts fs oc tts]
      no_done_when_raised[of l ts fs oc tts e]
    by blast
qed

theorem stream_ends_with_or_without_done_witness:
  "relay (run ([Claude, Claude, Claude, Claude] @ [Fish, Fish, Fish, Fish]
               @ [Relay, Relay, Relay, Relay, Relay, Relay, Relay, Relay, Relay, Relay, Relay])
            (init_session [''Hi''] (Raised ''boom'') [Pull] Completed)) = R_stopped
   \<and> last (yielded (run ([Claude, Claude, Claude, Claude] @ [Fish, Fish, Fish, Fish]
               @ [Relay, Relay, Relay, Relay, Relay, Relay, Relay, Relay, Relay, Relay, Relay])
            (init_session [''Hi''] (Raised ''boom'') [Pull] Completed))) = line done_event"
proof -
  let ?a = "[Claude, Claude, Claude, Claude]"
  let ?b = "[Fish, Fish, Fish, Fish]"
  let ?c = "[Relay, Relay, Relay, Relay, Relay, Relay, Relay, Relay, Relay, Relay, Relay]"
  have p: "2 * length [''Hi''] + 2 \<le> picks Claude ?a \<and> 2 * length [Pull] + 2 \<le> picks Fish ?b
      \<and> length [''Hi''] + length [Pull] + 9 \<le> picks Relay ?c"
    by (simp add: picks_def)
  show ?thesis
    using p stream_ends_with_or_without_done[where fs = "[''Hi'']" and a = ?a and tts = "[Pull]"
        and b = ?b and c = ?c and oc = "Raised ''boom''" and toc = Completed
        and ts = "?a @ ?b @ ?c" and l = "[]" and e = "[]"]
    by blast
qed

text \<open>
  C3 as stated fails when the speech session raises: the session fails on opening, the
  model sends nothing, both threads end, the relay yields the error line and stops, and
  no done line was yielded.
\<close>

theorem speech_failure_ends_without_done:
  "relay (run [Claude, Fish, Relay, Relay, Relay, Relay, Relay]
            (init_session [] Completed [] (Raised ''bad credentials''))) = R_stopped
   \<and> yielded (run [Claude, Fish, Relay, Relay, Relay, Relay, Relay]
            (init_session [] Completed [] (Raised ''bad credentials'')))
       = [line (tts_error_event ''bad credentials'')]
   \<and> \<not> chunk_is_done (line (tts_error_event ''bad credentials''))
   \<and> audio_queue (run [Claude, Fish, Relay, Relay, Relay, Relay, Relay]
            (init_session [] Completed [] (Raised ''bad credentials''))) = []
   \<and> claude_thread (run [Claude, Fish, Relay, Relay, Relay, Relay, Relay]
            (init_session [] Completed [] (Raised ''bad credentials''))) = []
   \<and> fish_thread (run [Claude, Fish, Relay, Relay, Relay, Relay, Relay]
            (init_session [] Completed [] (Raised ''bad credentials''))) = []"
  by (simp add: session_eval)

subsection \<open>C4: failure of the language-model call\<close>

text \<open>
  C4: when the stream of the model raises after the deltas \<open>fs\<close>, \<open>stream_claude\<close> puts
  the text lines of \<open>fs\<close> and then exactly one error line, whose content is the message
  of the exception. In every execution of the session: from its handler the thread
  closes the buffer, appends that error line to \<open>audio_queue\<close> and ends; once it has
  ended the buffer is closed and, apart from the error line of \<open>stream_fish_tts\<close>
  itself, exactly one error line has been yielded or queued; when the speech session
  does not fail itself, the text and error lines yielded or queued are the text lines
  of \<open>fs\<close> followed by the one error line. The thread ends after \<open>2 * length fs + 2\<close>
  picks whatever the other threads do, and \<open>stream_fish_tts\<close> then ends within
  \<open>2 * length tts + 2\<close> picks: no call of \<open>next\<close> on the buffer is left waiting, a call
  of \<open>next\<close> on the closed buffer returns within two steps of the speech thread. On a
  closed buffer the iterator ends.
\<close>

theorem text_producer_failure:
  "puts (stream_claude fs (Raised e)) = map (\<lambda>f. line (text_event f)) fs @ [line (claude_error_event e)]
   \<and> filter is_error_line (puts (stream_claude fs (Raised e))) = [line (claude_error_event e)]
   \<and> json_loads (line (claude_error_event e)) = Some [(''type'', ''error''), (''content'', e)]
   \<and> (claude_thread (run ts (init_session fs (Raised e) tts toc)) = [] \<longrightarrow>
        done_flag (text_buffer (run ts (init_session fs (Raised e) tts toc))))
   \<and> (2 * length fs + 2 \<le> picks Claude ts \<longrightarrow>
        claude_thread (run ts (init_session fs (Raised e) tts toc)) = [])
   \<and> (done_flag b \<longrightarrow> (\<exists>ys. iterate g b = Some ys))
   \<and> (claude_thread s = stream_claude [] (Raised e) \<longrightarrow>
        done_flag (text_buffer (run [Claude, Claude] s))
        \<and> audio_queue (run [Claude, Claude] s) = audio_queue s @ [line (claude_error_event e)]
        \<and> claude_thread (run [Claude, Claude] s) = [])
   \<and> (claude_thread (run ts (init_session fs (Raised e) tts toc)) = [] \<longrightarrow>
        length (filter is_error_line (yielded (run ts (init_session fs (Raised e) tts toc))
                                      @ audio_queue (run ts (init_session fs (Raised e) tts toc))))
          + length (filter is_error_line (puts (fish_thread (run ts (init_session fs (Raised e) tts toc)))))
        = 1 + (case toc of Completed \<Rightarrow> 0 | Raised x \<Rightarrow> 1))
   \<and> (claude_thread (run ts (init_session fs (Raised e) tts Completed)) = [] \<longrightarrow>
        filter (\<lambda>l. is_text_line l \<or> is_error_line l)
          (yielded (run ts (init_session fs (Raised e) tts Completed))
           @ audio_queue (run ts (init_session fs (Raised e) tts Completed)))
        = map (\<lambda>f. line (text_event f)) fs @ [line (claude_error_event e)])
   \<and> (2 * length fs + 2 \<le> picks Claude a \<and> 2 * length tts + 2 \<le> picks Fish c \<longrightarrow>
        claude_thread (run (a @ c) (init_session fs (Raised e) tts toc)) = []
        \<and> fish_thread (run (a @ c) (init_session fs (Raised e) tts toc)) = []
        \<and> done_flag (text_buffer (run (a @ c) (init_session fs (Raised e) tts toc))))
   \<and> (done_flag (text_buffer u) \<and> fish_thread u = Next # cs \<longrightarrow>
        fish_thread (step Fish u) = cs \<or> fish_thread (step Fish (step Fish u)) = cs)"
proof -
  let ?i = "init_session fs (Raised e) tts toc"
  let ?iC = "init_session fs (Raised e) tts Completed"
  have c1: "puts (stream_claude fs (Raised e)) = map (\<lambda>f. line (text_event f)) fs @ [line (claude_error_event e)]"
    by (simp add: puts_stream_claude)
  have c2: "filter is_error_line (puts (stream_claude fs (Raised e))) = [line (claude_error_event e)]"
    by (simp add: filter_error_stream_claude)
  have c3: "json_loads (line (claude_error_event e)) = Some [(''type'', ''error''), (''content'', e)]"
    by (simp only: loads_line) (simp add: claude_error_event_def)
  have "closes (run ts ?i)"
    by (rule closes_run) (rule closes_init)
  then have c4: "claude_thread (run ts ?i) = [] \<longrightarrow> done_flag (text_buffer (run ts ?i))"
    by (auto simp: closes_def)
  have "Next \<notin> set (claude_thread ?i)"
    by (simp add: init_session_def Next_notin_stream_claude)
  then have "length (claude_thread (run ts ?i)) = length (claude_thread ?i) - picks Claude ts"
    by (rule claude_progress)
  moreover have "length (claude_thread ?i) = 2 * length fs + 2"
    by (simp add: init_session_def length_stream_claude)
  ultimately have "length (claude_thread (run ts ?i)) = 2 * length fs + 2 - picks Claude ts"
    by simp
  then have c5: "2 * length fs + 2 \<le> picks Claude ts \<longrightarrow> claude_thread (run ts ?i) = []"
    by auto
  have c6: "done_flag b \<longrightarrow> (\<exists>ys. iterate g b = Some ys)"
    using iterate_closed_ends[of b g] by blast
  have c7: "claude_thread s = stream_claude [] (Raised e) \<longrightarrow>
        done_flag (text_buffer (run [Claude, Claude] s))
        \<and> audio_queue (run [Claude, Claude] s) = audio_queue s @ [line (claude_error_event e)]
        \<and> claude_thread (run [Claude, Claude] s) = []"
    by (simp add: run_def step.simps exec_op.simps finish_def)
  have c8: "claude_thread (run ts ?i) = [] \<longrightarrow>
        length (filter is_error_line (yielded (run ts ?i) @ audio_queue (run ts ?i)))
          + length (filter is_error_line (puts (fish_thread (run ts ?i))))
        = 1 + (case toc of Completed \<Rightarrow> 0 | Raised x \<Rightarrow> 1)"
    using count_error_lines[OF refl, of ts fs e tts toc] by auto
  have c9: "claude_thread (run ts ?iC) = [] \<longrightarrow>
        filter (\<lambda>l. is_text_line l \<or> is_error_line l) (yielded (run ts ?iC) @ audio_queue (run ts ?iC))
        = map (\<lambda>f. line (text_event f)) fs @ [line (claude_error_event e)]"
    using claude_sequence_on_failure[OF refl, of ts fs e tts] by auto
  have c10: "2 * length fs + 2 \<le> picks Claude a \<and> 2 * length tts + 2 \<le> picks Fish c \<longrightarrow>
        claude_thread (run (a @ c) ?i) = [] \<and> fish_thread (run (a @ c) ?i) = []
        \<and> done_flag (text_buffer (run (a @ c) ?i))"
    using init_fish_ends[of fs a tts c "Raised e" toc] by blast
  have c11: "done_flag (text_buffer u) \<and> fish_thread u = Next # cs \<longrightarrow>
        fish_thread (step Fish u) = cs \<or> fish_thread (step Fish (step Fish u)) = cs"
    by (cases "text_iter u"; cases "queue (text_buffer u)")
       (auto simp: step.simps exec_op.simps)
  show ?thesis
    using c1 c2 c3 c4 c5 c6 c7 c8 c9 c10 c11 by blast
qed

theorem text_producer_failure_witness:
  "puts (stream_claude [''Hi''] (Raised ''rate limit'')) =
     [line (text_event ''Hi''), line (claude_error_event ''rate limit'')]
   \<and> claude_thread (run ([Claude, Fish, Claude, Claude, Claude] @ [Fish, Relay, Fish, Fish, Fish])
        (init_session [''Hi''] (Raised ''rate limit'') [Pull] Completed)) = []
   \<and> fish_thread (run ([Claude, Fish, Claude, Claude, Claude] @ [Fish, Relay, Fish, Fish, Fish])
        (init_session [''Hi''] (Raised ''rate limit'') [Pull] Completed)) = []
   \<and> done_flag (text_buffer (run ([Claude, Fish, Claude, Claude, Claude] @ [Fish, Relay, Fish, Fish, Fish])
        (init_session [''Hi''] (Raised ''rate limit'') [Pull] Completed)))
   \<and> filter (\<lambda>l. is_text_line l \<or> is_error_line l)
        (yielded (run ([Claude, Fish, Claude, Claude, Claude] @ [Fish, Relay, Fish, Fish, Fish])
           (init_session [''Hi''] (Raised ''rate limit'') [Pull] Completed))
         @ audio_queue (run ([Claude, Fish, Claude, Claude, Claude] @ [Fish, Relay, Fish, Fish, Fish])
           (init_session [''Hi''] (Raised ''rate limit'') [Pull] Completed)))
       = [line (text_event ''Hi''), line (claude_error_event ''rate limit'')]
   \<and> length (filter is_error_line
        (yielded (run ([Claude, Fish, Claude, Claude, Claude] @ [Fish, Relay, Fish, Fish, Fish])
           (init_session [''Hi''] (Raised ''rate limit'') [Pull] Completed))
         @ audio_queue (run ([Claude, Fish, Claude, Claude, Claude] @ [Fish, Relay, Fish, Fish, Fish])
           (init_session [''Hi''] (Raised ''rate limit'') [Pull] Completed)))) = 1
   \<and> yielded (run ([Claude, Fish, Claude, Claude, Claude] @ [Fish, Relay, Fish, Fish, Fish])
        (init_session [''Hi''] (Raised ''rate limit'') [Pull] Completed))
       = [line (text_event ''Hi'')]
   \<and> audio_queue (run ([Claude, Fish, Claude, Claude, Claude] @ [Fish, Relay, Fish, Fish, Fish])
        (init_session [''Hi''] (Raised ''rate limit'') [Pull] Completed))
       = [line (claude_error_event ''rate limit''), line done_event]
   \<and> tts_received (run ([Claude, Fish, Claude, Claude, Claude] @ [Fish, Relay, Fish, Fish, Fish])
        (init_session [''Hi''] (Raised ''rate limit'') [Pull] Completed)) = [''Hi'']
   \<and> done_flag (text_buffer (run [Claude, Claude]
        (init_session [] (Raised ''rate limit'') [Pull] Completed)))
   \<and> audio_queue (run [Claude, Claude] (init_session [] (Raised ''rate limit'') [Pull] Completed))
       = [line (claude_error_event ''rate limit'')]
   \<and> claude_thread (run [Claude, Claude]
        (init_session [] (Raised ''rate limit'') [Pull] Completed)) = []
   \<and> fish_thread (run [Claude, Claude] (init_session [] (Raised ''rate limit'') [Pull] Completed))
       = [Next, Put (line done_event)]
   \<and> (fish_thread (step Fish (run [Claude, Claude]
          (init_session [] (Raised ''rate limit'') [Pull] Completed))) = [Put (line done_event)]
        \<or> fish_thread (step Fish (step Fish (run [Claude, Claude]
          (init_session [] (Raised ''rate limit'') [Pull] Completed)))) = [Put (line done_event)])
   \<and> (\<exists>ys. iterate G_while (text_buffer (run [Claude, Claude]
          (init_session [] (Raised ''rate limit'') [Pull] Completed))) = Some ys)"
proof -
  let ?a = "[Claude, Fish, Claude, Claude, Claude]"
  let ?c = "[Fish, Relay, Fish, Fish, Fish]"
  have p: "2 * length [''Hi''] + 2 \<le> picks Claude ?a \<and> 2 * length [Pull] + 2 \<le> picks Fish ?c"
    by (simp add: picks_def)
  let ?i = "init_session [''Hi''] (Raised ''rate limit'') [Pull] Completed"
  let ?r = "run (?a @ ?c) ?i"
  let ?j = "init_session [] (Raised ''rate limit'') [Pull] Completed"
  let ?u = "run [Claude, Claude] ?j"
  note T = text_producer_failure[where fs = "[''Hi'']" and e = "''rate limit''"
        and ts = "?a @ ?c" and tts = "[Pull]" and toc = Completed and a = ?a and c = ?c
        and b = "text_buffer ?u" and g = G_while and s = ?j and u = ?u
        and cs = "[Put (line done_event)]"]
  from T have "puts (stream_claude [''Hi''] (Raised ''rate limit''))
      = map (\<lambda>f. line (text_event f)) [''Hi''] @ [line (claude_error_event ''rate limit'')]"
    by blast
  then have w1: "puts (stream_claude [''Hi''] (Raised ''rate limit'')) =
     [line (text_event ''Hi''), line (claude_error_event ''rate limit'')]"
    by simp
  from T p have w2: "claude_thread ?r = [] \<and> fish_thread ?r = [] \<and> done_flag (text_buffer ?r)"
    by blast
  from T w2 have "filter (\<lambda>l. is_text_line l \<or> is_error_line l) (yielded ?r @ audio_queue ?r)
      = map (\<lambda>f. line (text_event f)) [''Hi''] @ [line (claude_error_event ''rate limit'')]"
    by blast
  then have w3: "filter (\<lambda>l. is_text_line l \<or> is_error_line l) (yielded ?r @ audio_queue ?r)
      = [line (text_event ''Hi''), line (claude_error_event ''rate limit'')]"
    by simp
  from T w2 have "length (filter is_error_line (yielded ?r @ audio_queue ?r))
      + length (filter is_error_line (puts (fish_thread ?r)))
      = 1 + (case Completed of Completed \<Rightarrow> 0 | Raised x \<Rightarrow> 1)"
    by blast
  then have w4: "length (filter is_error_line (yielded ?r @ audio_queue ?r)) = 1"
    using w2 by simp
  have w5: "yielded ?r = [line (text_event ''Hi'')]"
    "audio_queue ?r = [line (claude_error_event ''rate limit''), line done_event]"
    "tts_received ?r = [''Hi'']"
    by (simp_all add: session_eval)
  have j: "claude_thread ?j = stream_claude [] (Raised ''rate limit'')" "audio_queue ?j = []"
    by (simp_all add: init_session_def)
  from T j(1) have "done_flag (text_buffer ?u)
      \<and> audio_queue ?u = audio_queue ?j @ [line (claude_error_event ''rate limit'')]
      \<and> claude_thread ?u = []"
    by blast
  then have w6: "done_flag (text_buffer ?u)"
    "audio_queue ?u = [line (claude_error_event ''rate limit'')]" "claude_thread ?u = []"
    using j(2) by simp_all
  have w7: "fish_thread ?u = [Next, Put (line done_event)]"
    by (simp add: run_def step.simps exec_op.simps init_session_def)
  from T w6(1) w7 have w8: "fish_thread (step Fish ?u) = [Put (line done_event)]
      \<or> fish_thread (step Fish (step Fish ?u)) = [Put (line done_event)]"
    by blast
  from T w6(1) have w9: "\<exists>ys. iterate G_while (text_buffer ?u) = Some ys"
    by blast
  show ?thesis
    using w1 w2 w3 w4 w5 w6 w7 w8 w9 by blast
qed

subsection \<open>C5: completion and failure of the speech session\<close>

text \<open>
  C5: when the speech session ends normally after the chunks it yielded,
  \<open>stream_fish_tts\<close> puts their audio lines and then the done line, the only done line
  it puts. When the session raises, \<open>stream_fish_tts\<close> puts the audio lines of the chunks
  yielded before the failure and then one error line, after which it puts nothing and
  ends. The content of that line is \<open>TTS Error: \<close> followed by the message, which
  differs from the error line \<open>stream_claude\<close> puts for the same message.
\<close>

theorem speech_producer_ends:
  "puts (stream_fish_tts tts Completed) = map (\<lambda>a. line (audio_event a)) (chunks tts) @ [line done_event]
   \<and> filter chunk_is_done (puts (stream_fish_tts tts Completed)) = [line done_event]
   \<and> puts (stream_fish_tts tts (Raised e))
       = map (\<lambda>a. line (audio_event a)) (chunks tts) @ [line (tts_error_event e)]
   \<and> filter chunk_is_done (puts (stream_fish_tts tts (Raised e))) = []
   \<and> json_loads (line (tts_error_event e)) = Some [(''type'', ''error''), (''content'', ''TTS Error: '' @ e)]
   \<and> line (tts_error_event e) \<noteq> line (claude_error_event e)
   \<and> (fish_thread s = stream_fish_tts [] (Raised e) \<longrightarrow>
        fish_thread (step Fish s) = []
        \<and> audio_queue (step Fish s) = audio_queue s @ [line (tts_error_event e)])
   \<and> (fish_thread s = stream_fish_tts [] Completed \<longrightarrow>
        fish_thread (step Fish s) = []
        \<and> audio_queue (step Fish s) = audio_queue s @ [line done_event])"
proof -
  have c: "json_loads (line (tts_error_event e)) = Some [(''type'', ''error''), (''content'', ''TTS Error: '' @ e)]"
    by (simp only: loads_line) (simp add: tts_error_event_def)
  have d: "fish_thread s = stream_fish_tts [] (Raised e) \<longrightarrow>
        fish_thread (step Fish s) = []
        \<and> audio_queue (step Fish s) = audio_queue s @ [line (tts_error_event e)]"
    by (simp add: step.simps exec_op.simps)
  have f: "fish_thread s = stream_fish_tts [] Completed \<longrightarrow>
        fish_thread (step Fish s) = []
        \<and> audio_queue (step Fish s) = audio_queue s @ [line done_event]"
    by (simp add: step.simps exec_op.simps)
  have p1: "puts (stream_fish_tts tts Completed)
      = map (\<lambda>a. line (audio_event a)) (chunks tts) @ [line done_event]"
    by (simp add: puts_stream_fish_tts)
  have p2: "puts (stream_fish_tts tts (Raised e))
      = map (\<lambda>a. line (audio_event a)) (chunks tts) @ [line (tts_error_event e)]"
    by (simp add: puts_stream_fish_tts)
  have q1: "filter chunk_is_done (puts (stream_fish_tts tts Completed)) = [line done_event]"
    by (simp only: filter_done_stream_fish_tts outcome.case)
  have q2: "filter chunk_is_done (puts (stream_fish_tts tts (Raised e))) = []"
    by (simp only: filter_done_stream_fish_tts outcome.case)
  show ?thesis
    using p1 p2 q1 q2 c d f error_lines_differ[of e] by blast
qed

theorem speech_producer_ends_witness:
  "puts (stream_fish_tts [Pull, Chunk [1, 2]] Completed) = [line (audio_event [1, 2]), line done_event]
   \<and> puts (stream_fish_tts [] (Raised ''bad credentials'')) = [line (tts_error_event ''bad credentials'')]
   \<and> fish_thread (step Fish (init_session [] Completed [] (Raised ''bad credentials''))) = []
   \<and> audio_queue (step Fish (init_session [] Completed [] (Raised ''bad credentials'')))
       = [line (tts_error_event ''bad credentials'')]"
  using speech_producer_ends[of "[Pull, Chunk [1, 2]]" "''bad credentials''"
      "init_session [] Completed [] (Raised ''bad credentials'')"]
    speech_producer_ends[of "[]" "''bad credentials''"
      "init_session [] Completed [] (Raised ''bad credentials'')"]
  by (simp add: init_session_def)

subsection \<open>C6: the lines sent to the client\<close>

text \<open>
  C6, as the code has it: every line yielded to the client is \<open>json.dumps\<close> of one
  dictionary followed by a newline, with no other newline in it, and parses back to
  that dictionary. The dictionary
  is \<open>{"type": t, "content": c}\<close> with \<open>t\<close> one of \<open>text\<close>, \<open>audio\<close>, \<open>error\<close> and \<open>c\<close> a
  string, or it is \<open>{"type": "done"}\<close>, which has no content.
\<close>

theorem outbound_lines_are_events:
  assumes "l \<in> set (yielded (run ts (init_session fs oc tts toc)))"
  shows "\<exists>d. l = json_dumps d @ [CHR 0x0A] \<and> CHR 0x0A \<notin> set (json_dumps d)
           \<and> json_loads l = Some d
           \<and> ((\<exists>c. d = [(''type'', ''text''), (''content'', c)])
              \<or> (\<exists>c. d = [(''type'', ''audio''), (''content'', c)])
              \<or> (\<exists>c. d = [(''type'', ''error''), (''content'', c)])
              \<or> d = [(''type'', ''done'')])"
proof -
  let ?G = "\<lambda>l. \<exists>d. l = line d \<and> json_loads l = Some d
           \<and> ((\<exists>c. d = [(''type'', ''text''), (''content'', c)])
              \<or> (\<exists>c. d = [(''type'', ''audio''), (''content'', c)])
              \<or> (\<exists>c. d = [(''type'', ''error''), (''content'', c)])
              \<or> d = [(''type'', ''done'')])"
  have t: "?G (line (text_event f))" for f
    using loads_text_line[of f] by (auto simp: text_event_def)
  have a: "?G (line (audio_event x))" for x
    using loads_audio_line[of x] by (auto simp: audio_event_def)
  have d: "?G (line done_event)"
    using loads_done_line by (auto simp: done_event_def)
  have ce: "?G (line (claude_error_event e))" for e
    using loads_claude_error_line[of e] by (auto simp: claude_error_event_def)
  have te: "?G (line (tts_error_event e))" for e
    using loads_tts_error_line[of e] by (auto simp: tts_error_event_def)
  have "l \<in> lines_of (run ts (init_session fs oc tts toc))"
    using assms by (simp add: lines_of_def)
  then have "l \<in> set (puts (stream_claude fs oc)) \<union> set (puts (stream_fish_tts tts toc))"
    by (simp only: lines_of_run lines_of_init)
  then have "?G l"
    using t a d ce te
    by (auto simp: puts_stream_claude puts_stream_fish_tts split: outcome.splits)
  then show ?thesis
    using newline_notin_json_dumps by (auto simp: line_def)
qed

theorem outbound_lines_are_events_witness:
  "line (text_event ''Hello'')
     \<in> set (yielded (run [Claude, Claude, Relay] (init_session [''Hello''] Completed [] Completed)))
   \<and> (\<exists>d. line (text_event ''Hello'') = json_dumps d @ [CHR 0x0A]
         \<and> CHR 0x0A \<notin> set (json_dumps d)
         \<and> json_loads (line (text_event ''Hello'')) = Some d
         \<and> ((\<exists>c. d = [(''type'', ''text''), (''content'', c)])
            \<or> (\<exists>c. d = [(''type'', ''audio''), (''content'', c)])
            \<or> (\<exists>c. d = [(''type'', ''error''), (''content'', c)])
            \<or> d = [(''type'', ''done'')]))"
proof -
  have h: "line (text_event ''Hello'')
     \<in> set (yielded (run [Claude, Claude, Relay] (init_session [''Hello''] Completed [] Completed)))"
    by (simp add: session_eval)
  show ?thesis
    using h outbound_lines_are_events[OF h] by blast
qed

text \<open>
  C6 as stated fails on the done line: the speech session ends at once, the relay yields
  the line \<open>{"type": "done"}\<close>, and its dictionary has no \<open>content\<close>.
\<close>

theorem done_line_has_no_content:
  \<open>yielded (run [Fish, Relay] (init_session [] Completed [] Completed))
     = [''{"type": "done"}'' @ [CHR 0x0A]]
   \<and> json_loads (''{"type": "done"}'' @ [CHR 0x0A]) = Some [(''type'', ''done'')]
   \<and> dict_get [(''type'', ''done'')] ''content'' = None\<close>
proof -
  have l: \<open>line done_event = ''{"type": "done"}'' @ [CHR 0x0A]\<close>
    by (simp add: line_def done_event_def json_dumps_def json_item_def json_string_def escape_char_def)
  have \<open>yielded (run [Fish, Relay] (init_session [] Completed [] Completed)) = [line done_event]\<close>
    by (simp add: session_eval)
  moreover have \<open>json_loads (line done_event) = Some [(''type'', ''done'')]\<close>
    by (simp only: loads_line) (simp add: done_event_def)
  ultimately show ?thesis
    unfolding l by (simp add: dict_get_def)
qed

subsection \<open>C7: the relay on a timeout\<close>

text \<open>
  C7: when \<open>audio_queue.get\<close> times out the relay enters the handler of \<open>queue.Empty\<close>.
  The handler leaves the loop if and only if both producer threads have ended and the
  queue is empty, and otherwise goes back to \<open>audio_queue.get\<close>. In every execution,
  also with steps of the producers between the tests, both threads have ended when the
  relay reaches the test of the queue, and from there it leaves the loop if and only
  if the queue is empty. Once both producers have ended, the relay leaves the loop
  within \<open>length audio_queue + 7\<close> of its own steps.
\<close>

theorem relay_timeout_check:
  "(relay s = R_get \<and> audio_queue s = [] \<longrightarrow> step Relay s = s\<lparr>relay := R_empty\<rparr>)
   \<and> (relay s = R_empty \<longrightarrow>
        relay (on_timeout s) =
          (if claude_thread s = [] \<and> fish_thread s = [] \<and> audio_queue s = [] then R_stopped else R_get)
        \<and> yielded (on_timeout s) = yielded s \<and> audio_queue (on_timeout s) = audio_queue s)
   \<and> (relay (run us (init_session fs oc tts toc)) = R_queue_empty \<longrightarrow>
        claude_thread (run us (init_session fs oc tts toc)) = []
        \<and> fish_thread (run us (init_session fs oc tts toc)) = [])
   \<and> (relay s = R_queue_empty \<longrightarrow>
        relay (step Relay s) = (if audio_queue s = [] then R_stopped else R_get))
   \<and> (claude_thread s = [] \<and> fish_thread s = [] \<and> length (audio_queue s) + 7 \<le> picks Relay ts \<longrightarrow>
        relay (run ts s) = R_stopped)"
proof -
  have a: "relay s = R_get \<and> audio_queue s = [] \<longrightarrow> step Relay s = s\<lparr>relay := R_empty\<rparr>"
    by (simp add: step_Relay relay_step_def)
  have "handler_inv (run us (init_session fs oc tts toc))"
    by (rule handler_inv_run) (rule handler_inv_init)
  then have c: "relay (run us (init_session fs oc tts toc)) = R_queue_empty \<longrightarrow>
        claude_thread (run us (init_session fs oc tts toc)) = []
        \<and> fish_thread (run us (init_session fs oc tts toc)) = []"
    by (simp add: handler_inv_def)
  have d: "relay s = R_queue_empty \<longrightarrow>
        relay (step Relay s) = (if audio_queue s = [] then R_stopped else R_get)"
    by (simp add: step_Relay relay_step_def)
  show ?thesis
    using a on_timeout_decides[of s] c d relay_stops_when_ended[of s ts] by blast
qed

theorem relay_timeout_check_witness:
  "relay (on_timeout (run [Claude, Fish, Relay, Relay] (init_session [] Completed [] (Raised ''x'')))) = R_stopped
   \<and> relay (on_timeout (run [Relay] (init_session [] Completed [] (Raised ''x'')))) = R_get
   \<and> relay (run [Relay, Relay, Relay, Relay, Relay, Relay, Relay, Relay]
              (run [Claude, Fish] (init_session [] Completed [] (Raised ''x'')))) = R_stopped"
  using relay_timeout_check[of "run [Claude, Fish, Relay, Relay] (init_session [] Completed [] (Raised ''x''))"
      "[]" "[]" Completed "[]" Completed "[]"]
    relay_timeout_check[of "run [Relay] (init_session [] Completed [] (Raised ''x''))"
      "[]" "[]" Completed "[]" Completed "[]"]
    relay_timeout_check[of "run [Claude, Fish] (init_session [] Completed [] (Raised ''x''))"
      "[]" "[]" Completed "[]" Completed "[Relay, Relay, Relay, Relay, Relay, Relay, Relay, Relay]"]
  by (simp add: session_eval picks_def)

subsection \<open>C8: the scenario of two deltas and one audio chunk\<close>

text \<open>
  C8, as the code has it: the model emits \<open>"Hello"\<close> and \<open>" world"\<close> and its stream ends
  normally; the speech session yields the one chunk \<open>b"\x01\x02"\<close>, ends normally, and
  reads the buffer to its end, that is, calls \<open>next\<close> at least three times. Then in
  every execution in which the relay has stopped the lines yielded are the two text
  lines in order, the audio line with content \<open>AQI=\<close> before, between or after them,
  and the done line last, and nothing is left in the queue.
\<close>

theorem hello_world_scenario:
  assumes "chunks tts = [[1, 2]]"
    and "3 \<le> length (filter (\<lambda>a. a = Pull) tts)"
    and "s = run ts (init_session [''Hello'', '' world''] Completed tts Completed)"
    and "relay s = R_stopped"
  shows \<open>(yielded s = [line (audio_event [1, 2]), line (text_event ''Hello''),
                       line (text_event '' world''), line done_event]
          \<or> yielded s = [line (text_event ''Hello''), line (audio_event [1, 2]),
                         line (text_event '' world''), line done_event]
          \<or> yielded s = [line (text_event ''Hello''), line (text_event '' world''),
                         line (audio_event [1, 2]), line done_event])
         \<and> audio_queue s = []
         \<and> line (text_event ''Hello'') = ''{"type": "text", "content": "Hello"}'' @ [CHR 0x0A]
         \<and> line (text_event '' world'') = ''{"type": "text", "content": " world"}'' @ [CHR 0x0A]
         \<and> line (audio_event [1, 2]) = ''{"type": "audio", "content": "AQI="}'' @ [CHR 0x0A]
         \<and> line done_event = ''{"type": "done"}'' @ [CHR 0x0A]\<close>
proof -
  have n: "length (filter (\<lambda>f. f \<noteq> []) [''Hello'', '' world'']) < length (filter (\<lambda>a. a = Pull) tts)"
    using assms(2) by simp
  from nothing_lost[OF assms(3) n assms(4)]
  obtain ys where ys: "yielded s = ys @ [line done_event]"
    "ys \<in> shuffles (map (\<lambda>f. line (text_event f)) [''Hello'', '' world''])
                    (map (\<lambda>a. line (audio_event a)) (chunks tts))"
    and q: "audio_queue s = []" by blast
  have "ys \<in> shuffles [line (text_event ''Hello''), line (text_event '' world'')]
                       [line (audio_event [1, 2])]"
    using ys(2) by (simp add: assms(1))
  then have "ys = [line (audio_event [1, 2]), line (text_event ''Hello''), line (text_event '' world'')]
      \<or> ys = [line (text_event ''Hello''), line (audio_event [1, 2]), line (text_event '' world'')]
      \<or> ys = [line (text_event ''Hello''), line (text_event '' world''), line (audio_event [1, 2])]"
    by auto
  then have y: "yielded s = [line (audio_event [1, 2]), line (text_event ''Hello''),
                       line (text_event '' world''), line done_event]
          \<or> yielded s = [line (text_event ''Hello''), line (audio_event [1, 2]),
                         line (text_event '' world''), line done_event]
          \<or> yielded s = [line (text_event ''Hello''), line (text_event '' world''),
                         line (audio_event [1, 2]), line done_event]"
    using ys(1) by auto
  have t1: \<open>line (text_event ''Hello'') = ''{"type": "text", "content": "Hello"}'' @ [CHR 0x0A]\<close>
    by (simp add: line_def text_event_def json_dumps_def json_item_def json_string_def escape_char_def)
  have t2: \<open>line (text_event '' world'') = ''{"type": "text", "content": " world"}'' @ [CHR 0x0A]\<close>
    by (simp add: line_def text_event_def json_dumps_def json_item_def json_string_def escape_char_def)
  have b: "b64encode [1, 2] = ''AQI=''"
    by (simp add: b64_char_def)
  have a: \<open>line (audio_event [1, 2]) = ''{"type": "audio", "content": "AQI="}'' @ [CHR 0x0A]\<close>
    unfolding audio_event_def b
    by (simp add: line_def json_dumps_def json_item_def json_string_def escape_char_def)
  have d: \<open>line done_event = ''{"type": "done"}'' @ [CHR 0x0A]\<close>
    by (simp add: line_def done_event_def json_dumps_def json_item_def json_string_def escape_char_def)
  show ?thesis
    using y q t1 t2 a d by blast
qed

theorem hello_world_scenario_witness:
  "chunks [Pull, Chunk [1, 2], Pull, Pull] = [[1, 2]]
   \<and> 3 \<le> length (filter (\<lambda>a. a = Pull) [Pull, Chunk [1, 2], Pull, Pull])
   \<and> relay (run [Claude, Claude, Fish, Fish, Fish, Claude, Claude, Claude, Fish, Fish, Fish, Fish,
                 Relay, Relay, Relay, Relay]
        (init_session [''Hello'', '' world''] Completed [Pull, Chunk [1, 2], Pull, Pull] Completed))
      = R_stopped
   \<and> yielded (run [Claude, Claude, Fish, Fish, Fish, Claude, Claude, Claude, Fish, Fish, Fish, Fish,
                 Relay, Relay, Relay, Relay]
        (init_session [''Hello'', '' world''] Completed [Pull, Chunk [1, 2], Pull, Pull] Completed))
      = [line (text_event ''Hello''), line (audio_event [1, 2]),
         line (text_event '' world''), line done_event]"
proof -
  let ?tts = "[Pull, Chunk [1, 2], Pull, Pull]"
  let ?ts = "[Claude, Claude, Fish, Fish, Fish, Claude, Claude, Claude, Fish, Fish, Fish, Fish,
                 Relay, Relay, Relay, Relay]"
  let ?s = "run ?ts (init_session [''Hello'', '' world''] Completed ?tts Completed)"
  have h1: "chunks ?tts = [[1, 2]]" by simp
  have h2: "3 \<le> length (filter (\<lambda>a. a = Pull) ?tts)" by simp
  have y: "yielded ?s = [line (text_event ''Hello''), line (audio_event [1, 2]),
         line (text_event '' world''), line done_event]"
    by (simp add: session_eval)
  have h4: "relay ?s = R_stopped" by (simp add: session_eval)
  have "audio_queue ?s = []"
    using hello_world_scenario[OF h1 h2 refl h4] by blast
  then show ?thesis
    using h1 h2 h4 y by blast
qed

text \<open>Each of the three positions of the audio line occurs in some execution.\<close>

lemma audio_line_first:
  "yielded (run [Fish, Claude, Claude, Claude, Claude, Claude, Fish, Fish, Fish, Fish, Fish, Fish,
                 Relay, Relay, Relay, Relay]
        (init_session [''Hello'', '' world''] Completed [Chunk [1, 2], Pull, Pull, Pull] Completed))
      = [line (audio_event [1, 2]), line (text_event ''Hello''),
         line (text_event '' world''), line done_event]"
  by (simp add: session_eval)

lemma audio_line_last:
  "yielded (run [Claude, Claude, Claude, Claude, Claude, Fish, Fish, Fish, Fish, Fish, Fish, Fish,
                 Relay, Relay, Relay, Relay]
        (init_session [''Hello'', '' world''] Completed [Pull, Pull, Pull, Chunk [1, 2]] Completed))
      = [line (text_event ''Hello''), line (text_event '' world''),
         line (audio_event [1, 2]), line done_event]"
  by (simp add: session_eval)

text \<open>
  C8 as stated fails for a speech session that ends without reading the buffer: it
  yields its chunk and ends before \<open>stream_claude\<close> has made a call, the relay yields the
  audio line and the done line and stops, and the two text lines are never yielded.
\<close>

theorem early_done_loses_text:
  "relay (run [Fish, Fish, Relay, Relay]
        (init_session [''Hello'', '' world''] Completed [Chunk [1, 2]] Completed)) = R_stopped
   \<and> yielded (run [Fish, Fish, Relay, Relay]
        (init_session [''Hello'', '' world''] Completed [Chunk [1, 2]] Completed))
      = [line (audio_event [1, 2]), line done_event]"
  by (simp add: session_eval)

subsection \<open>C9: nothing is delivered after the done line\<close>

text \<open>
  C9: when the relay takes a line of type \<open>done\<close> from \<open>audio_queue\<close> it yields it and
  leaves the loop. Whatever happens afterwards, nothing more is yielded: the lines that
  were behind the done line stay in the queue, and the lines put later are added behind
  them.
\<close>

theorem relay_stops_at_done:
  assumes "relay s = R_get" and "audio_queue s = chunk # rest" and "chunk_is_done chunk"
  shows "relay (step Relay s) = R_stopped
       \<and> yielded (step Relay s) = yielded s @ [chunk]
       \<and> relay (run ts (step Relay s)) = R_stopped
       \<and> yielded (run ts (step Relay s)) = yielded s @ [chunk]
       \<and> (\<exists>later. audio_queue (run ts (step Relay s)) = rest @ later)"
proof -
  have st: "relay (step Relay s) = R_stopped" "yielded (step Relay s) = yielded s @ [chunk]"
    "audio_queue (step Relay s) = rest"
    using assms by (simp_all add: step_Relay relay_step_def)
  show ?thesis
    using stopped_run[OF st(1), of ts] st by simp
qed

theorem relay_stops_at_done_witness:
  "relay (run [Claude, Fish, Fish] (init_session [] (Raised ''boom'') [Pull] Completed)) = R_get
   \<and> audio_queue (run [Claude, Fish, Fish] (init_session [] (Raised ''boom'') [Pull] Completed))
       = [line done_event]
   \<and> chunk_is_done (line done_event)
   \<and> yielded (run [Claude] (step Relay
        (run [Claude, Fish, Fish] (init_session [] (Raised ''boom'') [Pull] Completed))))
       = [line done_event]
   \<and> audio_queue (run [Claude] (step Relay
        (run [Claude, Fish, Fish] (init_session [] (Raised ''boom'') [Pull] Completed))))
       = [line (claude_error_event ''boom'')]"
proof -
  let ?s = "run [Claude, Fish, Fish] (init_session [] (Raised ''boom'') [Pull] Completed)"
  have h1: "relay ?s = R_get" by (simp add: session_eval)
  have h2: "audio_queue ?s = line done_event # []" by (simp add: session_eval)
  have h3: "chunk_is_done (line done_event)" by (simp add: chunk_is_done_lines)
  have q: "audio_queue (run [Claude] (step Relay ?s)) = [line (claude_error_event ''boom'')]"
    by (simp add: session_eval)
  have y: "yielded ?s = []" by (simp add: session_eval)
  show ?thesis
    using relay_stops_at_done[OF h1 h2 h3, of "[Claude]"] h1 h2 h3 q y by simp
qed

subsection \<open>C10: \<open>add\<close> of the empty string\<close>

text \<open>
  C10: \<open>add\<close> of the empty string leaves the buffer as it is; \<open>add\<close> keeps a buffer free
  of empty fragments; in every execution of a session neither the buffer nor the text
  taken by the speech session ever contains an empty fragment; and for an empty delta
  of the model \<open>stream_claude\<close> leaves the buffer unchanged and puts the text line with
  the empty content on \<open>audio_queue\<close>.
\<close>

theorem add_empty_is_noop:
  "add [] b = b
   \<and> ([] \<notin> set (queue b) \<longrightarrow> [] \<notin> set (queue (add f b)))
   \<and> [] \<notin> set (queue (text_buffer (run ts (init_session fs oc tts toc))))
   \<and> [] \<notin> set (tts_received (run ts (init_session fs oc tts toc)))
   \<and> (claude_thread s = stream_claude ([] # fs) oc \<longrightarrow>
        text_buffer (run [Claude, Claude] s) = text_buffer s
        \<and> audio_queue (run [Claude, Claude] s) = audio_queue s @ [line (text_event [])]
        \<and> claude_thread (run [Claude, Claude] s) = stream_claude fs oc)"
proof -
  have inv: "no_empty_fragment (run ts (init_session fs oc tts toc))"
    by (rule no_empty_fragment_run) (rule no_empty_fragment_init)
  have a: "add [] b = b" by (simp add: add_def)
  have b: "[] \<notin> set (queue b) \<longrightarrow> [] \<notin> set (queue (add f b))"
    by (simp add: add_def)
  have c: "claude_thread s = stream_claude ([] # fs) oc \<longrightarrow>
        text_buffer (run [Claude, Claude] s) = text_buffer s
        \<and> audio_queue (run [Claude, Claude] s) = audio_queue s @ [line (text_event [])]
        \<and> claude_thread (run [Claude, Claude] s) = stream_claude fs oc"
    by (simp add: run_def step.simps exec_op.simps add_def)
  show ?thesis
    using inv a b c unfolding no_empty_fragment_def by simp
qed

theorem add_empty_is_noop_witness:
  "add [] (add ''a'' init_buffer) = add ''a'' init_buffer
   \<and> [] \<notin> set (queue (add [] (add ''a'' init_buffer)))
   \<and> text_buffer (run [Claude, Claude] (init_session [[]] Completed [] Completed)) = init_buffer
   \<and> audio_queue (run [Claude, Claude] (init_session [[]] Completed [] Completed))
       = [line (text_event [])]"
  using add_empty_is_noop[of "add ''a'' init_buffer" "[]" "[]" "[]" Completed "[]" Completed
      "init_session [[]] Completed [] Completed"]
  by (simp add: init_session_def add_def init_buffer_def)

end
